theory Spec2Isabelle
  imports Complex_Main "HOL-Library.Log_Nat"
begin

section \<open>Tables of the vote counting script\<close>

text \<open>
  The script \<^verbatim>\<open>photo_challenge_count_voting.py\<close> (its functions are repeated in
  \<^verbatim>\<open>photo_challenge_library.py\<close>) keeps its data in pandas data frames. A frame is
  modelled as the list of its rows, in index order, and a row as a record with one field
  per column. A float column that can hold \<^verbatim>\<open>NaN\<close> is an \<open>option\<close>: \<open>None\<close> is
  \<^verbatim>\<open>NaN\<close>.

  \<^item> \<open>vote\<close> is a row of \<^verbatim>\<open>vote_df\<close> as \<^verbatim>\<open>parse_voting_page\<close> builds it
    (columns num, award, voter, creator, line);
  \<^item> \<open>evote\<close> is the same row after \<^verbatim>\<open>validate_votes\<close> has merged the column
    \<^verbatim>\<open>error\<close> into it;
  \<^item> \<open>voter_row\<close> is a row of \<^verbatim>\<open>voter_df\<close> as \<^verbatim>\<open>validate_voters\<close> returns it.
\<close>

record vote =
  num :: string
  award :: int
  voter :: string
  creator :: string
  line :: string

record evote = vote +
  error :: "int option"

record voter_row =
  v_voter :: string
  v_error :: int
  v_note :: int
  v_edit_count :: int
  v_reg_date :: "int option"

definition with_error :: "vote \<Rightarrow> int option \<Rightarrow> evote" where
  "with_error v e =
     \<lparr>num = num v, award = award v, voter = voter v, creator = creator v,
      line = line v, error = e\<rparr>"

definition vote_of :: "evote \<Rightarrow> vote" where
  "vote_of r =
     \<lparr>num = num r, award = award r, voter = voter r, creator = creator r, line = line r\<rparr>"

section \<open>The pandas operations the script uses\<close>

text \<open>
  \<^verbatim>\<open>left.merge(right[["voter", "error"]], on="voter", how="left")\<close>: every left row, in
  order, once for each right row with the same key (in the right frame's order), and
  once with \<^verbatim>\<open>NaN\<close> when no right row has the key.
\<close>

definition merge_left :: "vote list \<Rightarrow> voter_row list \<Rightarrow> evote list" where
  "merge_left vote_df voter_df =
     concat (map (\<lambda>v.
       (case filter (\<lambda>w. v_voter w = voter v) voter_df of
          [] \<Rightarrow> [with_error v None]
        | ms \<Rightarrow> map (\<lambda>w. with_error v (Some (v_error w))) ms)) vote_df)"

text \<open>A comparison with \<^verbatim>\<open>NaN\<close> is false.\<close>

definition nan_gt :: "int option \<Rightarrow> int \<Rightarrow> bool" where
  "nan_gt x c = (case x of None \<Rightarrow> False | Some e \<Rightarrow> c < e)"

definition nan_ge :: "int option \<Rightarrow> int \<Rightarrow> bool" where
  "nan_ge x c = (case x of None \<Rightarrow> False | Some e \<Rightarrow> c \<le> e)"

text \<open>\<^verbatim>\<open>df.loc[mask, 'error'] = c\<close>, for a mask as long as the frame.\<close>

definition loc_set_error :: "bool list \<Rightarrow> int \<Rightarrow> evote list \<Rightarrow> evote list" where
  "loc_set_error msk c df =
     map (\<lambda>(m, r). if m then r\<lparr>error := Some c\<rparr> else r) (zip msk df)"

text \<open>
  \<^verbatim>\<open>df.duplicated(subset=...)\<close> on the list of the rows' keys: with the default
  \<^verbatim>\<open>keep='first'\<close> a row is marked when an earlier row has its key, with
  \<^verbatim>\<open>keep=False\<close> when any other row has it.
\<close>

fun duplicated_from :: "'k list \<Rightarrow> 'k list \<Rightarrow> bool list" where
  "duplicated_from seen [] = []"
| "duplicated_from seen (k # ks) = (k \<in> set seen) # duplicated_from (k # seen) ks"

definition duplicated :: "'k list \<Rightarrow> bool list" where
  "duplicated ks = duplicated_from [] ks"

definition duplicated_keep_false :: "'k list \<Rightarrow> bool list" where
  "duplicated_keep_false ks = map (\<lambda>k. 1 < count_list ks k) ks"

text \<open>\<^verbatim>\<open>df[mask]\<close>: the rows where the mask holds.\<close>

definition boolean_index :: "bool list \<Rightarrow> 'a list \<Rightarrow> 'a list" where
  "boolean_index msk df = map snd (filter fst (zip msk df))"

text \<open>
  \<^verbatim>\<open>mask1 & mask2\<close>, where \<^verbatim>\<open>mask2\<close> was computed on \<^verbatim>\<open>df[mask1]\<close> and so only has
  the index labels selected by \<^verbatim>\<open>mask1\<close>: pandas aligns the two series on the index
  and a missing label counts as false.
\<close>

fun reindex :: "bool list \<Rightarrow> bool list \<Rightarrow> bool list" where
  "reindex [] ys = []"
| "reindex (False # ms) ys = False # reindex ms ys"
| "reindex (True # ms) [] = False # reindex ms []"
| "reindex (True # ms) (y # ys) = y # reindex ms ys"

definition mask_and :: "bool list \<Rightarrow> bool list \<Rightarrow> bool list" where
  "mask_and xs ys = map (\<lambda>(x, y). x \<and> y) (zip xs ys)"

section \<open>The vote classifier: \<^verbatim>\<open>validate_votes\<close>\<close>

text \<open>
  The function is a sequence of statements, each overwriting the column \<open>error\<close> on
  the rows of a mask. Each statement is one definition here, in the order of the source;
  \<open>validate_votes\<close> composes them. The codes: 5 duplicate vote, 6 unsigned vote,
  7 vote for one's own picture, 8 the same award given twice by one voter.
\<close>

definition amnesty :: "evote list \<Rightarrow> evote list" where
  "amnesty df = loc_set_error (map (\<lambda>r. award r = 0 \<and> nan_gt (error r) 0) df) 0 df"

definition mark_duplicates :: "evote list \<Rightarrow> evote list" where
  "mark_duplicates df = loc_set_error (duplicated (map (\<lambda>r. (num r, voter r)) df)) 5 df"

definition mark_unsigned :: "evote list \<Rightarrow> evote list" where
  "mark_unsigned df = loc_set_error (map (\<lambda>r. voter r = []) df) 6 df"

definition mark_self_votes :: "evote list \<Rightarrow> evote list" where
  "mark_self_votes df = loc_set_error (map (\<lambda>r. voter r = creator r) df) 7 df"

definition mark_multiple_awards :: "evote list \<Rightarrow> evote list" where
  "mark_multiple_awards df =
     (let mask1 = map (\<lambda>r. 0 < award r \<and> error r = Some 0) df;
          mask2 = duplicated_keep_false
                    (map (\<lambda>r. (award r, voter r)) (boolean_index mask1 df))
      in loc_set_error (mask_and mask1 (reindex mask1 mask2)) 8 df)"

text \<open>The frame as it is before the last statement of \<^verbatim>\<open>validate_votes\<close>.\<close>

definition before_multiple_awards :: "vote list \<Rightarrow> voter_row list \<Rightarrow> evote list" where
  "before_multiple_awards vote_df voter_df =
     mark_self_votes (mark_unsigned (mark_duplicates (amnesty (merge_left vote_df voter_df))))"

definition validate_votes :: "vote list \<Rightarrow> voter_row list \<Rightarrow> evote list" where
  "validate_votes vote_df voter_df =
     mark_multiple_awards (before_multiple_awards vote_df voter_df)"

text \<open>
  What the last statement marks, said of one row: the row is a placement vote with no
  error so far, and the frame has more than one such row with its award and voter.
\<close>

definition in_multi_group :: "evote list \<Rightarrow> evote \<Rightarrow> bool" where
  "in_multi_group df r =
     (0 < award r \<and> error r = Some 0 \<and>
      1 < count_list (map (\<lambda>r. (award r, voter r))
            (filter (\<lambda>r. 0 < award r \<and> error r = Some 0) df)) (award r, voter r))"


text \<open>
  The error that the merge copies onto a vote when every voter has one row in
  \<^verbatim>\<open>voter_df\<close>, as is the case for the frame \<^verbatim>\<open>validate_voters\<close> builds from the
  unique voter names.
\<close>

definition lookup_error :: "voter_row list \<Rightarrow> string \<Rightarrow> int option" where
  "lookup_error voter_df name =
     map_option v_error (find (\<lambda>w. v_voter w = name) voter_df)"

section \<open>Python strings\<close>

text \<open>
  A Python \<^verbatim>\<open>str\<close> is modelled as a \<open>string\<close>, one \<open>char\<close> per code point; the model
  covers the code points below 256.
\<close>

definition startswith :: "string \<Rightarrow> string \<Rightarrow> bool" where
  "startswith s p = (take (length p) s = p)"

section \<open>The voter classifier: \<^verbatim>\<open>validate_voters\<close>\<close>

text \<open>
  The exceptions of the script that the model keeps as values.
\<close>

datatype py_error = TypeError | KeyError | UnboundLocalError

text \<open>
  What \<^verbatim>\<open>pywikibot.User(site, name)\<close> answers for one name. Times are seconds;
  \<open>registration\<close> is \<open>None\<close> where pywikibot returns \<^verbatim>\<open>None\<close>. \<open>contributions\<close>
  lists the titles of the pages of \<^verbatim>\<open>user.contributions()\<close>.
\<close>

record user =
  editCount :: int
  registration :: "int option"
  isRegistered :: bool
  is_blocked :: bool
  contributions :: "string list"

text \<open>\<^verbatim>\<open>re.fullmatch(r"[0-9.]+", name)\<close>\<close>

definition is_ip_address :: "string \<Rightarrow> bool" where
  "is_ip_address name =
     (name \<noteq> [] \<and> list_all (\<lambda>c. c \<in> set ''0123456789.'') name)"

text \<open>
  \<^verbatim>\<open>page_name.startswith('Commons:Photo challenge/') and page_name.count('/')==1\<close>
\<close>

definition direct_submission :: "string \<Rightarrow> bool" where
  "direct_submission page_name =
     (startswith page_name ''Commons:Photo challenge/''
      \<and> count_list page_name (CHR ''/'') = 1)"

text \<open>
  The variable \<^verbatim>\<open>error\<close> of the loop body names the column that the two checks write:
  \<^verbatim>\<open>'error'\<close>, or \<^verbatim>\<open>'note'\<close> after a contribution to a challenge page was found.
\<close>

datatype column = Error_column | Note_column

definition loc_set :: "column \<Rightarrow> int \<Rightarrow> voter_row \<Rightarrow> voter_row" where
  "loc_set col c row =
     (case col of Error_column \<Rightarrow> row\<lparr>v_error := c\<rparr> | Note_column \<Rightarrow> row\<lparr>v_note := c\<rparr>)"

text \<open>
  The body of the loop over \<^verbatim>\<open>voter_df\<close>, for the row of one name. The row starts
  with error 0 and note 0; \<open>v_edit_count\<close> is -1 where the loop leaves the column empty
  (\<^verbatim>\<open>fillna(-1)\<close>). \<open>start_date\<close> is the time \<^verbatim>\<open>strptime\<close> reads from the challenge
  label. \<^verbatim>\<open>(start_date - reg_date).days\<close> rounds down to whole days, and raises
  \<^verbatim>\<open>TypeError\<close> when \<^verbatim>\<open>reg_date\<close> is \<^verbatim>\<open>None\<close>.
\<close>

definition validate_voter :: "int \<Rightarrow> string \<Rightarrow> user \<Rightarrow> py_error + voter_row" where
  "validate_voter start_date name u =
     (if is_ip_address name then
        Inr \<lparr>v_voter = name, v_error = 1, v_note = 0, v_edit_count = -1, v_reg_date = None\<rparr>
      else if isRegistered u then
        (case registration u of
           None \<Rightarrow> Inl TypeError
         | Some reg_date \<Rightarrow>
             (let days_active = (start_date - reg_date) div 86400;
                  row0 = \<lparr>v_voter = name, v_error = 0,
                          v_note = (if is_blocked u then 1 else 0),
                          v_edit_count = editCount u, v_reg_date = Some reg_date\<rparr>;
                  col = (if (days_active < 10 \<or> editCount u < 50)
                            \<and> list_ex direct_submission (contributions u)
                         then Note_column else Error_column);
                  row1 = (if days_active < 10 then loc_set col 3 row0 else row0);
                  row2 = (if editCount u < 50 then loc_set col 4 row1 else row1)
              in Inr row2))
      else
        Inr \<lparr>v_voter = name, v_error = 2, v_note = 0, v_edit_count = editCount u,
             v_reg_date = None\<rparr>)"

text \<open>\<^verbatim>\<open>Series.unique()\<close>: the values in order of first appearance.\<close>

fun unique_from :: "'a list \<Rightarrow> 'a list \<Rightarrow> 'a list" where
  "unique_from seen [] = []"
| "unique_from seen (x # xs) =
     (if x \<in> set seen then unique_from seen xs else x # unique_from (x # seen) xs)"

definition unique :: "'a list \<Rightarrow> 'a list" where
  "unique xs = unique_from [] xs"

text \<open>A loop that stops at the first exception.\<close>

fun for_each :: "('a \<Rightarrow> py_error + 'b) \<Rightarrow> 'a list \<Rightarrow> py_error + 'b list" where
  "for_each f [] = Inr []"
| "for_each f (x # xs) =
     (case f x of
        Inl e \<Rightarrow> Inl e
      | Inr y \<Rightarrow> (case for_each f xs of Inl e \<Rightarrow> Inl e | Inr ys \<Rightarrow> Inr (y # ys)))"

text \<open>
  \<^verbatim>\<open>validate_voters\<close>: one row per distinct non-empty voter name. \<open>site\<close> is the wiki,
  the answer for each name. The column \<^verbatim>\<open>edit_count\<close> exists only once the loop has
  written it, which it does for every name that is not an IP address; without it the
  \<^verbatim>\<open>fillna\<close> after the loop raises \<^verbatim>\<open>KeyError\<close>.
\<close>

definition validate_voters ::
    "(string \<Rightarrow> user) \<Rightarrow> vote list \<Rightarrow> int \<Rightarrow> py_error + voter_row list" where
  "validate_voters site vote_df start_date =
     (let voter_list = filter (\<lambda>name. name \<noteq> []) (unique (map voter vote_df))
      in case for_each (\<lambda>name. validate_voter start_date name (site name)) voter_list of
           Inl e \<Rightarrow> Inl e
         | Inr voter_df \<Rightarrow>
             if list_all is_ip_address voter_list then Inl KeyError else Inr voter_df)"

section \<open>The scoring engine: \<^verbatim>\<open>count_votes\<close>\<close>

text \<open>
  \<open>file_row\<close> is a row of \<^verbatim>\<open>file_df\<close> as \<^verbatim>\<open>parse_voting_page\<close> builds it, and
  \<open>result_row\<close> a row of the frame \<^verbatim>\<open>count_votes\<close> returns: the columns score,
  support and rank are integers after \<^verbatim>\<open>fillna(0).astype(int)\<close>, the column score2
  is a float column and keeps its \<^verbatim>\<open>NaN\<close>. The model is of a vote frame with at least
  one row: the columns of a frame without rows have no numeric type, and the script
  raises \<^verbatim>\<open>TypeError\<close> on it.
\<close>

record file_row =
  f_num :: string
  file_name :: string
  title :: string
  f_creator :: string

record result_row = file_row +
  score :: int
  support :: int
  score2 :: "rat option"
  rank :: int

subsection \<open>The numbers of pandas\<close>

text \<open>
  An integer column is \<^verbatim>\<open>int64\<close>: its arithmetic wraps around. The column
  \<^verbatim>\<open>award\<close> is taken to hold values of that range (the parser stores one decimal
  digit).
\<close>

definition wrap64 :: "int \<Rightarrow> int" where
  "wrap64 x = (x + 2 ^ 63) mod 2 ^ 64 - 2 ^ 63"

text \<open>
  A float column is \<^verbatim>\<open>float64\<close>. A finite float is modelled by the rational number
  it denotes, and an operation on floats by the exact operation followed by
  \<open>float64\<close>, the rounding to the nearest float with ties going to the even
  significand: 53 significant bits, the exponent of the last bit not below -1074.
  Infinities are not modelled; the values \<^verbatim>\<open>count_votes\<close> computes from \<^verbatim>\<open>int64\<close>
  columns stay far below the largest float. \<open>float_exponent x\<close> is the \<open>e\<close> with
  \<open>2 powi e \<le> \<bar>x\<bar> < 2 powi (e + 1)\<close>, for \<open>x\<close> other than 0.
\<close>

definition float_exponent :: "rat \<Rightarrow> int" where
  "float_exponent x =
     (case quotient_of \<bar>x\<bar> of
        (n, d) \<Rightarrow> let e0 = bitlen n - bitlen d in if 2 powi e0 \<le> \<bar>x\<bar> then e0 else e0 - 1)"

definition round_half_even :: "rat \<Rightarrow> int" where
  "round_half_even y =
     (let r = \<lfloor>y\<rfloor>; frac = y - of_int r
      in if frac < 1 / 2 then r else if 1 / 2 < frac then r + 1
         else if even r then r else r + 1)"

definition float64 :: "rat \<Rightarrow> rat" where
  "float64 x =
     (if x = 0 then 0
      else let ulp = 2 powi (max (float_exponent x) (- 1022) - 52)
           in of_int (round_half_even (x / ulp)) * ulp)"

text \<open>\<^verbatim>\<open>astype(int)\<close> on a float column whose values are whole numbers.\<close>

definition astype_int :: "rat \<Rightarrow> int" where
  "astype_int x = wrap64 \<lfloor>x\<rfloor>"

subsection \<open>The pandas operations of \<^verbatim>\<open>count_votes\<close>\<close>

text \<open>
  \<^verbatim>\<open>votes.groupby("num")["award"].sum()\<close> and \<^verbatim>\<open>.count()\<close>, as the value of one group.
  The frames \<^verbatim>\<open>df1\<close> and \<^verbatim>\<open>df2\<close> have one row per entry number that occurs in
  \<^verbatim>\<open>votes\<close>, with \<^verbatim>\<open>int64\<close> values.
\<close>

definition groupby_sum :: "evote list \<Rightarrow> (string \<times> int) list" where
  "groupby_sum votes =
     map (\<lambda>k. (k, wrap64 (sum_list (map award (filter (\<lambda>v. num v = k) votes)))))
       (unique (map num votes))"

definition groupby_count :: "evote list \<Rightarrow> (string \<times> int) list" where
  "groupby_count votes =
     map (\<lambda>k. (k, int (length (filter (\<lambda>v. num v = k) votes))))
       (unique (map num votes))"

text \<open>
  The column that \<^verbatim>\<open>file_df.merge(df, on="num", how="left")\<close> adds, given the value
  looked up for each file (\<open>None\<close> where the entry number is not in \<^verbatim>\<open>df\<close>): when a
  value is missing the column becomes \<^verbatim>\<open>float64\<close>, with \<^verbatim>\<open>NaN\<close> there and the
  integers converted; otherwise it stays \<^verbatim>\<open>int64\<close>.
\<close>

definition merged_column :: "int option list \<Rightarrow> rat option list" where
  "merged_column col =
     (if None \<in> set col then map (map_option (\<lambda>v. float64 (of_int v))) col
      else map (map_option of_int) col)"

text \<open>\<^verbatim>\<open>Series.max()\<close> skips \<^verbatim>\<open>NaN\<close> and is \<^verbatim>\<open>NaN\<close> when nothing is left.\<close>

definition nan_max :: "'a::linorder option list \<Rightarrow> 'a option" where
  "nan_max col =
     (case List.map_filter id col of [] \<Rightarrow> None | x # xs \<Rightarrow> Some (fold max xs x))"

text \<open>
  \<^verbatim>\<open>file_df['score'] + file_df['support']/max_support\<close>, for one row: the operands are
  converted to \<^verbatim>\<open>float64\<close> (which changes nothing when they are floats already), the
  quotient is rounded and so is the sum.
\<close>

definition score2_of :: "rat option \<Rightarrow> rat option \<Rightarrow> rat option \<Rightarrow> rat option" where
  "score2_of s p m =
     (case (s, p, m) of
        (Some s', Some p', Some m') \<Rightarrow>
          Some (float64 (float64 s' + float64 (float64 p' / float64 m')))
      | _ \<Rightarrow> None)"

text \<open>
  \<^verbatim>\<open>sort_values(by="score2", ascending=False)\<close>: descending, \<^verbatim>\<open>NaN\<close> last. The sort of
  the model is stable; pandas does not promise an order among equal keys, and nothing
  below depends on one.
\<close>

definition sort_values :: "('a \<times> rat option) list \<Rightarrow> ('a \<times> rat option) list" where
  "sort_values df =
     sort_key (\<lambda>(r, k). case k of Some a \<Rightarrow> - a | None \<Rightarrow> 0)
       (filter (\<lambda>(r, k). k \<noteq> None) df)
     @ filter (\<lambda>(r, k). k = None) df"

text \<open>
  \<^verbatim>\<open>Series.rank(method="min", ascending=False)\<close>: the values that are not \<^verbatim>\<open>NaN\<close> are
  put in descending order and numbered from 1; a value gets the lowest number of its
  group of equal values, that is the number of its first position. \<^verbatim>\<open>NaN\<close> keeps
  \<^verbatim>\<open>NaN\<close>.
\<close>

definition rank_min_descending :: "rat option list \<Rightarrow> nat option list" where
  "rank_min_descending col =
     (let ordered = rev (sort (List.map_filter id col))
      in map (map_option (\<lambda>a. 1 + length (takeWhile (\<lambda>b. b \<noteq> a) ordered))) col)"

definition fillna :: "int \<Rightarrow> int option \<Rightarrow> int" where
  "fillna c x = (case x of None \<Rightarrow> c | Some v \<Rightarrow> v)"

subsection \<open>The function\<close>

text \<open>
  \<^verbatim>\<open>max_support\<close> is the maximum of the column support plus 1, a float sum when the
  column is a float column.
\<close>

definition count_votes :: "evote list \<Rightarrow> file_row list \<Rightarrow> result_row list" where
  "count_votes vote_df file_df =
     (let votes = filter (\<lambda>v. nan_ge (error v) 0) vote_df;
          df1 = groupby_sum votes;
          df2 = groupby_count votes;
          score_col = merged_column (map (\<lambda>f. map_of df1 (f_num f)) file_df);
          support_col = merged_column (map (\<lambda>f. map_of df2 (f_num f)) file_df);
          max_support = map_option (\<lambda>m. if None \<in> set support_col then float64 (m + 1)
                                          else m + 1) (nan_max support_col);
          keyed = map (\<lambda>(f, s, p). ((f, s, p), score2_of s p max_support))
                    (zip file_df (zip score_col support_col));
          ordered = sort_values keyed;
          ranks = rank_min_descending (map snd ordered)
      in map (\<lambda>(((f, s, p), k), r).
               \<lparr>f_num = f_num f, file_name = file_name f, title = title f,
                f_creator = f_creator f, score = fillna 0 (map_option astype_int s),
                support = fillna 0 (map_option astype_int p),
                score2 = k, rank = fillna 0 (map_option int r)\<rparr>)
           (zip ordered ranks))"

subsection \<open>Notions for the properties of \<^verbatim>\<open>count_votes\<close>\<close>

text \<open>
  The number of values of a column that are greater than \<open>a\<close>; \<^verbatim>\<open>NaN\<close> is not.
\<close>

definition count_greater :: "rat \<Rightarrow> rat option list \<Rightarrow> nat" where
  "count_greater a col = length (filter (\<lambda>k. case k of Some b \<Rightarrow> a < b | None \<Rightarrow> False) col)"

text \<open>
  The intermediate values of \<^verbatim>\<open>count_votes\<close>, each as a function of the arguments: the
  votes that pass the filter, the sum and the count looked up for one file, the cells of
  the merged columns score and support, \<^verbatim>\<open>max_support\<close>, the cell of score2 and the
  returned row of one file.
\<close>

definition counted_votes :: "evote list \<Rightarrow> evote list" where
  "counted_votes vote_df = filter (\<lambda>v. nan_ge (error v) 0) vote_df"

definition score_nan :: "evote list \<Rightarrow> file_row \<Rightarrow> int option" where
  "score_nan vote_df f = map_of (groupby_sum (counted_votes vote_df)) (f_num f)"

definition support_nan :: "evote list \<Rightarrow> file_row \<Rightarrow> int option" where
  "support_nan vote_df f = map_of (groupby_count (counted_votes vote_df)) (f_num f)"

definition score_cell :: "evote list \<Rightarrow> file_row list \<Rightarrow> file_row \<Rightarrow> rat option" where
  "score_cell vote_df file_df f =
     (if None \<in> set (map (score_nan vote_df) file_df)
      then map_option (\<lambda>v. float64 (of_int v)) (score_nan vote_df f)
      else map_option of_int (score_nan vote_df f))"

definition support_cell :: "evote list \<Rightarrow> file_row list \<Rightarrow> file_row \<Rightarrow> rat option" where
  "support_cell vote_df file_df f =
     (if None \<in> set (map (support_nan vote_df) file_df)
      then map_option (\<lambda>v. float64 (of_int v)) (support_nan vote_df f)
      else map_option of_int (support_nan vote_df f))"

definition max_support :: "evote list \<Rightarrow> file_row list \<Rightarrow> rat option" where
  "max_support vote_df file_df =
     map_option (\<lambda>m. if None \<in> set (map (support_cell vote_df file_df) file_df)
                      then float64 (m + 1) else m + 1)
       (nan_max (map (support_cell vote_df file_df) file_df))"

definition key_of :: "evote list \<Rightarrow> file_row list \<Rightarrow> file_row \<Rightarrow> rat option" where
  "key_of vote_df file_df f =
     score2_of (score_cell vote_df file_df f) (support_cell vote_df file_df f)
       (max_support vote_df file_df)"

definition result_of :: "evote list \<Rightarrow> file_row list \<Rightarrow> file_row \<Rightarrow> result_row" where
  "result_of vote_df file_df f =
     \<lparr>f_num = f_num f, file_name = file_name f, title = title f, f_creator = f_creator f,
      score = fillna 0 (map_option astype_int (score_cell vote_df file_df f)),
      support = fillna 0 (map_option astype_int (support_cell vote_df file_df f)),
      score2 = key_of vote_df file_df f,
      rank = fillna 0 (map_option (\<lambda>a. int (1 + count_greater a
                 (map (key_of vote_df file_df) file_df))) (key_of vote_df file_df f))\<rparr>"

text \<open>
  The order of the ranking on returned rows: \<open>better a b\<close> when \<open>a\<close> has the higher
  score, or the same score and the higher support; \<open>tied\<close> when both are equal.
\<close>

definition better :: "result_row \<Rightarrow> result_row \<Rightarrow> bool" where
  "better a b = (score b < score a \<or> (score b = score a \<and> support b < support a))"

definition tied :: "result_row \<Rightarrow> result_row \<Rightarrow> bool" where
  "tied a b = (score a = score b \<and> support a = support b)"

text \<open>
  A round of ordinary size: every award is a single digit in absolute value, as the
  parser stores it, and there are fewer than \<open>2 ^ 20\<close> votes. Then every score is below
  \<open>2 ^ 24\<close> in absolute value and \<^verbatim>\<open>max_support\<close> is at most \<open>2 ^ 20\<close>, and the
  rounding of \<^verbatim>\<open>score2\<close> keeps different pairs of score and support apart. Outside
  this range it need not: see \<open>large_scores_tie\<close>.
\<close>

definition ordinary_round :: "evote list \<Rightarrow> bool" where
  "ordinary_round vote_df =
     (list_all (\<lambda>v. \<bar>award v\<bar> < 10) vote_df \<and> length vote_df < 2 ^ 20)"

text \<open>The cell of score2 for score \<open>s\<close>, support \<open>p\<close> and \<^verbatim>\<open>max_support\<close> \<open>M\<close>.\<close>

definition float_key :: "int \<Rightarrow> int \<Rightarrow> int \<Rightarrow> rat" where
  "float_key s p M = float64 (of_int s + float64 (of_int p / of_int M))"

section \<open>The ledger parser: \<^verbatim>\<open>parse_voting_page\<close>\<close>

subsection \<open>String methods\<close>

text \<open>\<^verbatim>\<open>sub in s\<close>\<close>

fun contains :: "string \<Rightarrow> string \<Rightarrow> bool" where
  "contains sub [] = (sub = [])"
| "contains sub (c # cs) = (startswith (c # cs) sub \<or> contains sub cs)"

text \<open>
  \<^verbatim>\<open>s.replace(old, new)\<close>, from left to right without overlap. The script never calls
  it with an empty \<^verbatim>\<open>old\<close>.
\<close>

function replace :: "string \<Rightarrow> string \<Rightarrow> string \<Rightarrow> string" where
  "replace old new [] = []"
| "replace old new (c # cs) =
     (if old \<noteq> [] \<and> startswith (c # cs) old
      then new @ replace old new (drop (length old) (c # cs))
      else c # replace old new cs)"
  by pat_completeness auto
termination
  by (relation "measure (\<lambda>(old, new, s). length s)") auto

text \<open>\<^verbatim>\<open>s.split(sep)\<close> for a separator of one character: never an empty list.\<close>

fun split_on :: "char \<Rightarrow> string \<Rightarrow> string list" where
  "split_on sep [] = [[]]"
| "split_on sep (c # cs) =
     (if c = sep then [] # split_on sep cs
      else (case split_on sep cs of [] \<Rightarrow> [[c]] | p # ps \<Rightarrow> (c # p) # ps))"

text \<open>
  The white space that \<^verbatim>\<open>strip()\<close> removes and the line boundaries of
  \<^verbatim>\<open>splitlines()\<close>, among the code points below 256.
\<close>

definition is_space :: "char \<Rightarrow> bool" where
  "is_space c = (c \<in> set [CHR 0x09, CHR 0x0A, CHR 0x0B, CHR 0x0C, CHR 0x0D, CHR 0x1C,
                           CHR 0x1D, CHR 0x1E, CHR 0x1F, CHR 0x20, CHR 0x85, CHR 0xA0])"

definition strip :: "string \<Rightarrow> string" where
  "strip s = rev (dropWhile is_space (rev (dropWhile is_space s)))"

definition is_line_break :: "char \<Rightarrow> bool" where
  "is_line_break c = (c \<in> set [CHR 0x0A, CHR 0x0B, CHR 0x0C, CHR 0x0D, CHR 0x1C, CHR 0x1D,
                                CHR 0x1E, CHR 0x85])"

text \<open>
  \<open>cur\<close> holds the characters of the line being read, last one first. A carriage
  return before a line feed is part of that one boundary; the text after the last
  boundary is a line only when it is not empty.
\<close>

fun splitlines_from :: "string \<Rightarrow> string \<Rightarrow> string list" where
  "splitlines_from cur [] = (if cur = [] then [] else [rev cur])"
| "splitlines_from cur (c # cs) =
     (if c = CHR 0x0D \<and> (case cs of [] \<Rightarrow> False | d # ds \<Rightarrow> d = CHR 0x0A)
      then splitlines_from cur cs
      else if is_line_break c then rev cur # splitlines_from [] cs
      else splitlines_from (c # cur) cs)"

definition splitlines :: "string \<Rightarrow> string list" where
  "splitlines s = splitlines_from [] s"

subsection \<open>The regular expressions\<close>

text \<open>
  \<^verbatim>\<open>re.search\<close> tries the pattern at every position from the left and returns the first
  match. The patterns of the script match in at most one way at a given position, so a
  pattern is a function from the text at that position to its group 1.
\<close>

fun re_search :: "(string \<Rightarrow> string option) \<Rightarrow> string \<Rightarrow> string option" where
  "re_search m [] = m []"
| "re_search m (c # cs) = (case m (c # cs) of Some g \<Rightarrow> Some g | None \<Rightarrow> re_search m cs)"

text \<open>\<^verbatim>\<open>substr(pattern, text)\<close>: group 1 of the first match, stripped, or the empty string.\<close>

definition substr :: "(string \<Rightarrow> string option) \<Rightarrow> string \<Rightarrow> string" where
  "substr pattern text = (case re_search pattern text of None \<Rightarrow> [] | Some g \<Rightarrow> strip g)"

definition is_digit :: "char \<Rightarrow> bool" where
  "is_digit c = (c \<in> set ''0123456789'')"

text \<open>
  \<^verbatim>\<open>===(\d*)\.\<close>, the pattern of \<^verbatim>\<open>photo_challenge_count_voting.py\<close>. The copy of
  the parser in the library file reads the number from a span anchor instead; the rest
  of the loop is the same.
\<close>

definition header_number :: "string \<Rightarrow> string option" where
  "header_number s =
     (if startswith s ''==='' \<and> startswith (dropWhile is_digit (drop 3 s)) ''.''
      then Some (takeWhile is_digit (drop 3 s)) else None)"

text \<open>A prefix followed by one or more characters outside \<open>stop\<close>, which are the group.\<close>

definition link_target :: "string \<Rightarrow> string \<Rightarrow> string \<Rightarrow> string option" where
  "link_target prefix stop s =
     (if startswith s prefix \<and> takeWhile (\<lambda>c. c \<notin> set stop) (drop (length prefix) s) \<noteq> []
      then Some (takeWhile (\<lambda>c. c \<notin> set stop) (drop (length prefix) s)) else None)"

text \<open>\<^verbatim>\<open>\[\[User:([^|]+)\<close>\<close>

definition creator_link :: "string \<Rightarrow> string option" where
  "creator_link s = link_target ''[[User:'' ''|'' s"

text \<open>\<^verbatim>\<open>\[\[Special:Contributions/([^|\]]+)\<close>\<close>

definition contributions_link :: "string \<Rightarrow> string option" where
  "contributions_link s = link_target ''[[Special:Contributions/'' ''|]'' s"

text \<open>\<^verbatim>\<open>\[\[(?:[Uu]ser|[Bb]enutzer|[Uu]suario):([^|\]]+)\<close>\<close>

definition user_link :: "string \<Rightarrow> string option" where
  "user_link s =
     (case filter (\<lambda>w. startswith s (''[['' @ w @ '':''))
             [''User'', ''user'', ''Benutzer'', ''benutzer'', ''Usuario'', ''usuario''] of
        [] \<Rightarrow> None
      | w # ws \<Rightarrow> link_target (''[['' @ w @ '':'') ''|]'' s)"

text \<open>\<^verbatim>\<open>{{(\d)/3\*}}\<close>\<close>

definition award_template :: "string \<Rightarrow> string option" where
  "award_template s =
     (case drop 2 s of
        d # rest \<Rightarrow>
          if startswith s ''{{'' \<and> is_digit d \<and> startswith rest ''/3*}}'' then Some [d]
          else None
      | [] \<Rightarrow> None)"

text \<open>\<^verbatim>\<open>int(award)\<close> for a string of decimal digits.\<close>

definition int_of_digits :: "string \<Rightarrow> int" where
  "int_of_digits s =
     foldl (\<lambda>n c. 10 * n + int (length (takeWhile (\<lambda>d. d \<noteq> c) ''0123456789''))) 0 s"

subsection \<open>The scanner\<close>

text \<open>
  The local variables \<^verbatim>\<open>num\<close>, \<^verbatim>\<open>fname\<close>, \<^verbatim>\<open>title\<close> and \<^verbatim>\<open>creator\<close> of
  \<^verbatim>\<open>parse_voting_page\<close> are assigned inside the loop only; \<open>None\<close> is a variable that
  has no value yet, and reading it raises \<^verbatim>\<open>UnboundLocalError\<close>. \<open>out_files\<close> and
  \<open>out_votes\<close> are the lists \<^verbatim>\<open>files\<close> and \<^verbatim>\<open>votes\<close>.
\<close>

record scanner =
  cur_num :: "string option"
  cur_fname :: "string option"
  cur_title :: "string option"
  cur_creator :: "string option"
  out_files :: "file_row list"
  out_votes :: "vote list"

definition apostrophes :: string where
  "apostrophes = [CHR 0x27, CHR 0x27, CHR 0x27]"

definition signature_talk :: string where
  "signature_talk = ''<span class=\"signature-talk\">{{int:Talkpagelinktext}}</span>''"

text \<open>The body of the loop, for one line of the page.\<close>

definition parse_line :: "string \<Rightarrow> scanner \<Rightarrow> py_error + scanner" where
  "parse_line raw st =
     (let line = strip raw;
          st1 = (if startswith line ''===''
                 then st\<lparr>cur_num := Some (substr header_number line), cur_fname := Some [],
                         cur_title := Some [], cur_creator := Some []\<rparr>
                 else st)
      in if contains ''[[File:'' line then
           (case split_on (CHR ''|'') (replace ''['' ''|'' (replace ''[[File:'' [] line)) of
              [] \<Rightarrow> Inr st1
            | p0 # ps \<Rightarrow>
                Inr (if 5 \<le> length (p0 # ps)
                     then st1\<lparr>cur_fname := Some (strip p0),
                              cur_title := Some (strip ((p0 # ps) ! 4))\<rparr>
                     else st1\<lparr>cur_fname := Some (strip p0)\<rparr>))
         else if startswith line (''<!-- '' @ apostrophes @ ''C'')
                 \<or> startswith line (apostrophes @ ''C'') then
           (case (cur_num st1, cur_fname st1, cur_title st1) of
              (Some n, Some f, Some t) \<Rightarrow>
                Inr (st1\<lparr>cur_creator := Some (substr creator_link line),
                         out_files := out_files st1 @
                           [\<lparr>f_num = n, file_name = f, title = t,
                             f_creator = substr creator_link line\<rparr>]\<rparr>)
            | _ \<Rightarrow> Inl UnboundLocalError)
         else if contains ''*}}'' line then
           (case cur_fname st1 of
              None \<Rightarrow> Inl UnboundLocalError
            | Some f \<Rightarrow>
                if f \<noteq> ''Sample-image.svg''
                   \<and> 0 < length (substr award_template line) then
                  (case (cur_num st1, cur_creator st1) of
                     (Some n, Some c) \<Rightarrow>
                       Inr (st1\<lparr>out_votes := out_votes st1 @
                              [\<lparr>num = n, award = int_of_digits (substr award_template line),
                                voter = (if contains ''[[Special:Contributions/'' line
                                         then substr contributions_link line
                                         else substr user_link line),
                                creator = c, line = replace signature_talk [] line\<rparr>]\<rparr>)
                   | _ \<Rightarrow> Inl UnboundLocalError)
                else Inr st1)
         else Inr st1)"

fun scan :: "string list \<Rightarrow> scanner \<Rightarrow> py_error + scanner" where
  "scan [] st = Inr st"
| "scan (l # ls) st = (case parse_line l st of Inl e \<Rightarrow> Inl e | Inr st' \<Rightarrow> scan ls st')"

definition parse_voting_page :: "string \<Rightarrow> py_error + file_row list \<times> vote list" where
  "parse_voting_page wiki_text =
     (case scan (splitlines wiki_text)
             \<lparr>cur_num = None, cur_fname = None, cur_title = None, cur_creator = None,
              out_files = [], out_votes = []\<rparr> of
        Inl e \<Rightarrow> Inl e
      | Inr st \<Rightarrow> Inr (out_files st, out_votes st))"

text \<open>The state in which all four variables have a value.\<close>

definition all_bound :: "scanner \<Rightarrow> bool" where
  "all_bound st = (cur_num st \<noteq> None \<and> cur_fname st \<noteq> None \<and> cur_title st \<noteq> None
                   \<and> cur_creator st \<noteq> None)"

section \<open>Example inputs\<close>

text \<open>
  The scenario of the specification: entry 1, created by Alice, receives a first-place vote of Bob, the same vote of Bob a
  second time, and a third-place vote of Alice herself. Both voters are eligible.
\<close>

definition bob_vote :: vote where
  "bob_vote = \<lparr>num = ''1'', award = 3, voter = ''Bob'', creator = ''Alice'',
                line = ''*{{3/3*}} -- [[User:Bob|Bob]]''\<rparr>"

definition alice_vote :: vote where
  "alice_vote = \<lparr>num = ''1'', award = 1, voter = ''Alice'', creator = ''Alice'',
                  line = ''*{{1/3*}} -- [[User:Alice|Alice]]''\<rparr>"

definition scenario_votes :: "vote list" where
  "scenario_votes = [bob_vote, bob_vote, alice_vote]"

definition eligible :: "string \<Rightarrow> voter_row" where
  "eligible name = \<lparr>v_voter = name, v_error = 0, v_note = 0, v_edit_count = 1000,
                     v_reg_date = Some 0\<rparr>"

definition scenario_voters :: "voter_row list" where
  "scenario_voters = [eligible ''Bob'', eligible ''Alice'']"

text \<open>
  A vote with no signature, cast under a header whose creator line has no user link: the
  parser stores the empty string for both names.
\<close>

definition unsigned_vote :: vote where
  "unsigned_vote = \<lparr>num = ''2'', award = 2, voter = [], creator = [],
                     line = ''*{{2/3*}} nice''\<rparr>"



text \<open>Carol gives the first place twice, to entries 1 and 2.\<close>

definition carol_vote :: "string \<Rightarrow> vote" where
  "carol_vote n = \<lparr>num = n, award = 3, voter = ''Carol'', creator = ''Alice'',
                    line = ''*{{3/3*}} -- [[User:Carol|Carol]]''\<rparr>"

definition carol_votes :: "vote list" where
  "carol_votes = [carol_vote ''1'', carol_vote ''2'']"

text \<open>
  Newbie registered five days before voting opened and has made ten edits; \<open>pages\<close> are
  the pages Newbie has edited.
\<close>

definition day :: int where
  "day = 86400"

definition newbie :: "string list \<Rightarrow> user" where
  "newbie pages = \<lparr>editCount = 10, registration = Some (25 * day), isRegistered = True,
                    is_blocked = False, contributions = pages\<rparr>"

definition newbie_vote :: vote where
  "newbie_vote = \<lparr>num = ''1'', award = 2, voter = ''Newbie'', creator = ''Alice'',
                   line = ''*{{2/3*}} -- [[User:Newbie|Newbie]]''\<rparr>"

definition bark_page :: string where
  "bark_page = ''Commons:Photo challenge/2025 - August - Bark''"

text \<open>The entry of the scenario, and a second entry that nobody voted for.\<close>

definition entry :: "string \<Rightarrow> string \<Rightarrow> file_row" where
  "entry n c = \<lparr>f_num = n, file_name = ''Photo '' @ n @ ''.jpg'', title = ''Photo '' @ n,
                f_creator = c\<rparr>"

text \<open>
  Entries 1 and 2 tie with score 5 and support 2 (a first and a second place each);
  entry 3 has one third place.
\<close>

definition placed :: "string \<Rightarrow> int \<Rightarrow> string \<Rightarrow> evote" where
  "placed n a name = \<lparr>num = n, award = a, voter = name, creator = ''Alice'',
                       line = ''*{{'' @ n @ ''/3*}}'', error = Some 0\<rparr>"

definition tie_votes :: "evote list" where
  "tie_votes = [placed ''1'' 3 ''Bob'', placed ''1'' 2 ''Carol'', placed ''2'' 3 ''Dave'',
                placed ''2'' 2 ''Erin'', placed ''3'' 1 ''Bob'']"

definition tie_files :: "file_row list" where
  "tie_files = [entry ''1'' ''Alice'', entry ''2'' ''Alice'', entry ''3'' ''Alice'']"

text \<open>
  Awards far outside the range of the parser: entries 1 and 2 both have the score
  \<open>2 ^ 53\<close>, entry 1 with one vote and entry 2 with two.
\<close>

definition large_votes :: "evote list" where
  "large_votes = [placed ''1'' (2 ^ 53) ''Bob'', placed ''2'' (2 ^ 53) ''Carol'',
                  placed ''2'' 0 ''Dave'']"

definition large_files :: "file_row list" where
  "large_files = [entry ''1'' ''Alice'', entry ''2'' ''Alice'']"

text \<open>One first place for entry 1, no vote for entry 2.\<close>

definition lonely_votes :: "evote list" where
  "lonely_votes = [placed ''1'' 3 ''Bob'']"

definition lonely_files :: "file_row list" where
  "lonely_files = [entry ''1'' ''Alice'', entry ''2'' ''Zoe'']"

text \<open>
  A creator line, a vote line, and a page with a header, a file, its creator and four
  lines with the closing marker of an award template.
\<close>

definition creator_line :: string where
  "creator_line = apostrophes @ ''Creator:'' @ apostrophes @ '' [[User:Alice|Alice]]''"

definition vote_line :: string where
  "vote_line = ''*{{3/3*}} -- [[User:Bob|Bob]] ([[User talk:Bob|talk]])''"

definition sample_page :: string where
  "sample_page = ''Intro text'' @ [CHR 0x0A]
     @ ''===1. Oak bark==='' @ [CHR 0x0D, CHR 0x0A]
     @ ''[[File:Oak.jpg|none|thumb|300px|Oak bark [{{filepath:Oak.jpg}}<br>''
     @ [CHR 0x27, CHR 0x27] @ ''(Full size image)'' @ [CHR 0x27, CHR 0x27] @ '']]]''
     @ [CHR 0x0A]
     @ creator_line @ [CHR 0x0A]
     @ vote_line @ signature_talk @ [CHR 0x0A]
     @ ''  *{{1/3*}} -- [[Special:Contributions/10.0.0.1|10.0.0.1]]'' @ [CHR 0x0A]
     @ ''*{{0/3*}} nice'' @ [CHR 0x0A]
     @ ''* a comment *}}'' @ [CHR 0x0A]"

section \<open>Properties of the model\<close>

lemma length_loc_set_error:
  "length msk = length df \<Longrightarrow> length (loc_set_error msk c df) = length df"
  by (simp add: loc_set_error_def)

lemma nth_loc_set_error:
  "length msk = length df \<Longrightarrow> i < length df \<Longrightarrow>
   loc_set_error msk c df ! i = (if msk ! i then (df ! i)\<lparr>error := Some c\<rparr> else df ! i)"
  by (simp add: loc_set_error_def)

lemma loc_set_error_map:
  "loc_set_error (map Q df) c df = map (\<lambda>r. if Q r then r\<lparr>error := Some c\<rparr> else r) df"
  unfolding loc_set_error_def by (induction df) simp_all

lemma boolean_index_map: "boolean_index (map Q df) df = filter Q df"
  unfolding boolean_index_def by (induction df) simp_all

lemma reindex_map_filter:
  "reindex (map Q df) (map g (filter Q df)) = map (\<lambda>r. Q r \<and> g r) df"
  by (induction df) simp_all

lemma mask_and_map:
  "mask_and (map Q df) (map R df) = map (\<lambda>r. Q r \<and> R r) df"
  unfolding mask_and_def by (induction df) simp_all

lemma mark_multiple_awards_map:
  "mark_multiple_awards df =
     map (\<lambda>r. if in_multi_group df r then r\<lparr>error := Some 8\<rparr> else r) df"
proof -
  let ?Q = "\<lambda>r::evote. 0 < award r \<and> error r = Some 0"
  let ?ks = "map (\<lambda>r::evote. (award r, voter r)) (filter ?Q df)"
  have m2: "duplicated_keep_false ?ks
            = map (\<lambda>r. 1 < count_list ?ks (award r, voter r)) (filter ?Q df)"
    by (simp add: duplicated_keep_false_def comp_def)
  have "mask_and (map ?Q df) (reindex (map ?Q df) (duplicated_keep_false ?ks))
        = map (in_multi_group df) df"
    unfolding m2 reindex_map_filter mask_and_map
    by (rule map_cong) (auto simp: in_multi_group_def)
  then show ?thesis
    by (simp add: mark_multiple_awards_def Let_def boolean_index_map loc_set_error_map)
qed

lemma self_votes_rows:
  "r \<in> set (mark_self_votes df) \<Longrightarrow> voter r = creator r \<Longrightarrow> error r = Some 7"
  by (auto simp: mark_self_votes_def loc_set_error_map)

lemma multiple_awards_rows:
  assumes "r \<in> set (mark_multiple_awards df)"
  shows "r \<in> set df \<or> (\<exists>r0 \<in> set df. error r0 = Some 0 \<and> 0 < award r0
            \<and> r = r0\<lparr>error := Some 8\<rparr>)"
  using assms by (auto simp: mark_multiple_awards_map in_multi_group_def split: if_splits)

lemma self_vote_rows_final:
  assumes "r \<in> set (validate_votes vote_df voter_df)" and "voter r = creator r"
  shows "error r = Some 7"
proof -
  let ?df = "before_multiple_awards vote_df voter_df"
  from assms(1) have "r \<in> set (mark_multiple_awards ?df)"
    by (simp add: validate_votes_def)
  then consider (same) "r \<in> set ?df"
    | (marked) r0 where "r0 \<in> set ?df" "error r0 = Some 0" "r = r0\<lparr>error := Some 8\<rparr>"
    using multiple_awards_rows by blast
  then show ?thesis
  proof cases
    case same
    then show ?thesis
      using assms(2) by (simp add: before_multiple_awards_def self_votes_rows)
  next
    case marked
    then have "voter r0 = creator r0" using assms(2) by simp
    with marked(1) have "error r0 = Some 7"
      by (simp add: before_multiple_awards_def self_votes_rows)
    with marked(2) show ?thesis by simp
  qed
qed





lemma count_list_map_filter:
  "count_list (map f (filter Q xs)) k = length (filter (\<lambda>x. Q x \<and> f x = k) xs)"
  by (induction xs) simp_all

lemma filter_more_than_one:
  assumes "i < length xs" and "R (xs ! i)"
  shows "1 < length (filter R xs) \<longleftrightarrow> (\<exists>j < length xs. j \<noteq> i \<and> R (xs ! j))"
proof -
  let ?S = "{j. j < length xs \<and> R (xs ! j)}"
  have fin: "finite ?S" by simp
  have len: "length (filter R xs) = card ?S" by (rule length_filter_conv_card)
  have i: "i \<in> ?S" using assms by simp
  show ?thesis
  proof
    assume "1 < length (filter R xs)"
    with len have big: "1 < card ?S" by simp
    show "\<exists>j < length xs. j \<noteq> i \<and> R (xs ! j)"
    proof (rule ccontr)
      assume "\<not> ?thesis"
      then have "?S \<subseteq> {i}" by auto
      with card_mono [of "{i}" ?S] have "card ?S \<le> 1" by simp
      with big show False by simp
    qed
  next
    assume "\<exists>j < length xs. j \<noteq> i \<and> R (xs ! j)"
    then obtain j where j: "j \<in> ?S" "j \<noteq> i" by auto
    with i have "{i, j} \<subseteq> ?S" by simp
    with fin have "card {i, j} \<le> card ?S" by (rule card_mono)
    with j(2) len show "1 < length (filter R xs)" by simp
  qed
qed

lemma in_multi_group_nth:
  assumes "i < length df"
  shows "in_multi_group df (df ! i) \<longleftrightarrow>
         0 < award (df ! i) \<and> error (df ! i) = Some 0 \<and>
         (\<exists>j < length df. j \<noteq> i \<and> award (df ! j) = award (df ! i)
             \<and> voter (df ! j) = voter (df ! i) \<and> error (df ! j) = Some 0)"
proof (cases "0 < award (df ! i) \<and> error (df ! i) = Some 0")
  case False
  then show ?thesis by (auto simp: in_multi_group_def)
next
  case True
  let ?R = "\<lambda>r::evote. (0 < award r \<and> error r = Some 0)
              \<and> (award r, voter r) = (award (df ! i), voter (df ! i))"
  from True have "?R (df ! i)" by simp
  with assms have "1 < length (filter ?R df) \<longleftrightarrow> (\<exists>j < length df. j \<noteq> i \<and> ?R (df ! j))"
    by (rule filter_more_than_one)
  with True show ?thesis
    by (auto simp: in_multi_group_def count_list_map_filter)
qed

lemma filter_distinct_key:
  assumes "distinct (map f ws)"
  shows "filter (\<lambda>w. f w = k) ws = (case find (\<lambda>w. f w = k) ws of None \<Rightarrow> [] | Some w \<Rightarrow> [w])"
  using assms
proof (induction ws)
  case Nil
  then show ?case by simp
next
  case (Cons w ws)
  show ?case
  proof (cases "f w = k")
    case True
    from Cons.prems have "f w \<notin> f ` set ws" by simp
    with True have "\<forall>x \<in> set ws. f x \<noteq> k" by (metis imageI)
    then have "filter (\<lambda>w. f w = k) ws = []" by (simp add: filter_empty_conv)
    with True show ?thesis by simp
  next
    case False
    with Cons show ?thesis by simp
  qed
qed

lemma merge_left_distinct:
  assumes "distinct (map v_voter voter_df)"
  shows "merge_left vote_df voter_df
         = map (\<lambda>v. with_error v (lookup_error voter_df (voter v))) vote_df"
proof -
  have one: "(case filter (\<lambda>w. v_voter w = voter v) voter_df of
          [] \<Rightarrow> [with_error v None]
        | ms \<Rightarrow> map (\<lambda>w. with_error v (Some (v_error w))) ms)
        = [with_error v (lookup_error voter_df (voter v))]" for v
    unfolding filter_distinct_key [OF assms] lookup_error_def
    by (simp split: option.splits)
  show ?thesis unfolding merge_left_def one by (induction vote_df) simp_all
qed

lemma length_duplicated_from: "length (duplicated_from seen ks) = length ks"
  by (induction ks arbitrary: seen) simp_all

lemma nth_duplicated_from:
  "j < length ks \<Longrightarrow>
   duplicated_from seen ks ! j \<longleftrightarrow> ks ! j \<in> set seen \<or> (\<exists>i < j. ks ! i = ks ! j)"
proof (induction ks arbitrary: seen j)
  case Nil
  then show ?case by simp
next
  case (Cons k ks)
  show ?case
  proof (cases j)
    case 0
    then show ?thesis by simp
  next
    case (Suc j')
    with Cons.prems have "j' < length ks" by simp
    from Cons.IH [OF this, of "k # seen"]
    have "duplicated_from (k # seen) ks ! j' \<longleftrightarrow>
          ks ! j' \<in> set (k # seen) \<or> (\<exists>i < j'. ks ! i = ks ! j')" .
    moreover have "(\<exists>i < Suc j'. (k # ks) ! i = ks ! j')
        \<longleftrightarrow> k = ks ! j' \<or> (\<exists>i < j'. ks ! i = ks ! j')"
      by (auto simp: less_Suc_eq_0_disj)
    ultimately show ?thesis using Suc by auto
  qed
qed

lemma nth_duplicated:
  "j < length ks \<Longrightarrow> duplicated ks ! j \<longleftrightarrow> (\<exists>i < j. ks ! i = ks ! j)"
  by (simp add: duplicated_def nth_duplicated_from)

lemma length_amnesty: "length (amnesty df) = length df"
  by (simp add: amnesty_def loc_set_error_map)

lemma length_mark_duplicates: "length (mark_duplicates df) = length df"
  by (simp add: mark_duplicates_def loc_set_error_def duplicated_def length_duplicated_from)

lemma length_mark_unsigned: "length (mark_unsigned df) = length df"
  by (simp add: mark_unsigned_def loc_set_error_map)

lemma length_mark_self_votes: "length (mark_self_votes df) = length df"
  by (simp add: mark_self_votes_def loc_set_error_map)

lemma length_mark_multiple_awards: "length (mark_multiple_awards df) = length df"
  by (simp add: mark_multiple_awards_map)

lemmas length_passes = length_amnesty length_mark_duplicates length_mark_unsigned
  length_mark_self_votes length_mark_multiple_awards

lemma nth_amnesty:
  "i < length df \<Longrightarrow> amnesty df ! i =
     (if award (df ! i) = 0 \<and> nan_gt (error (df ! i)) 0 then (df ! i)\<lparr>error := Some 0\<rparr>
      else df ! i)"
  by (simp add: amnesty_def loc_set_error_map)

lemma nth_mark_duplicates:
  assumes "j < length df"
  shows "mark_duplicates df ! j =
     (if \<exists>i < j. num (df ! i) = num (df ! j) \<and> voter (df ! i) = voter (df ! j)
      then (df ! j)\<lparr>error := Some 5\<rparr> else df ! j)"
proof -
  let ?ks = "map (\<lambda>r. (num r, voter r)) df"
  have len: "length (duplicated ?ks) = length df"
    by (simp add: duplicated_def length_duplicated_from)
  have "duplicated ?ks ! j \<longleftrightarrow> (\<exists>i < j. ?ks ! i = ?ks ! j)"
    using assms by (simp add: nth_duplicated)
  also have "\<dots> \<longleftrightarrow> (\<exists>i < j. num (df ! i) = num (df ! j) \<and> voter (df ! i) = voter (df ! j))"
    using assms by auto
  finally show ?thesis
    unfolding mark_duplicates_def using assms len by (simp add: nth_loc_set_error)
qed

lemma nth_mark_unsigned:
  "i < length df \<Longrightarrow> mark_unsigned df ! i =
     (if voter (df ! i) = [] then (df ! i)\<lparr>error := Some 6\<rparr> else df ! i)"
  by (simp add: mark_unsigned_def loc_set_error_map)

lemma nth_mark_self_votes:
  "i < length df \<Longrightarrow> mark_self_votes df ! i =
     (if voter (df ! i) = creator (df ! i) then (df ! i)\<lparr>error := Some 7\<rparr> else df ! i)"
  by (simp add: mark_self_votes_def loc_set_error_map)

lemma nth_mark_multiple_awards:
  "i < length df \<Longrightarrow> mark_multiple_awards df ! i =
     (if in_multi_group df (df ! i) then (df ! i)\<lparr>error := Some 8\<rparr> else df ! i)"
  by (simp add: mark_multiple_awards_map)

lemma vote_of_fields:
  "num (vote_of r) = num r" "award (vote_of r) = award r" "voter (vote_of r) = voter r"
  "creator (vote_of r) = creator r" "line (vote_of r) = line r"
  by (simp_all add: vote_of_def)

lemma vote_of_with_error: "vote_of (with_error v e) = v"
  by (simp add: vote_of_def with_error_def)

lemma vote_of_error_update: "vote_of (r\<lparr>error := e\<rparr>) = vote_of r"
  by (simp add: vote_of_def)

lemma vote_of_amnesty: "k < length df \<Longrightarrow> vote_of (amnesty df ! k) = vote_of (df ! k)"
  by (simp add: nth_amnesty vote_of_error_update)

lemma vote_of_mark_duplicates:
  "k < length df \<Longrightarrow> vote_of (mark_duplicates df ! k) = vote_of (df ! k)"
  by (simp add: nth_mark_duplicates vote_of_error_update)

lemma vote_of_mark_unsigned:
  "k < length df \<Longrightarrow> vote_of (mark_unsigned df ! k) = vote_of (df ! k)"
  by (simp add: nth_mark_unsigned vote_of_error_update)

lemma vote_of_mark_self_votes:
  "k < length df \<Longrightarrow> vote_of (mark_self_votes df ! k) = vote_of (df ! k)"
  by (simp add: nth_mark_self_votes vote_of_error_update)

lemma vote_of_mark_multiple_awards:
  "k < length df \<Longrightarrow> vote_of (mark_multiple_awards df ! k) = vote_of (df ! k)"
  by (simp add: nth_mark_multiple_awards vote_of_error_update)

lemmas vote_of_passes = vote_of_amnesty vote_of_mark_duplicates vote_of_mark_unsigned
  vote_of_mark_self_votes vote_of_mark_multiple_awards

lemma amnesty_merge_votes:
  assumes "distinct (map v_voter voter_df)"
  shows "length (amnesty (merge_left vote_df voter_df)) = length vote_df"
    and "k < length vote_df \<Longrightarrow> vote_of (amnesty (merge_left vote_df voter_df) ! k) = vote_df ! k"
  by (simp_all add: merge_left_distinct [OF assms] length_amnesty vote_of_amnesty
      vote_of_with_error)

lemma validate_votes_votes:
  assumes "distinct (map v_voter voter_df)"
  shows "map vote_of (validate_votes vote_df voter_df) = vote_df"
proof (rule nth_equalityI)
  show len: "length (map vote_of (validate_votes vote_df voter_df)) = length vote_df"
    by (simp add: validate_votes_def before_multiple_awards_def length_passes
        merge_left_distinct [OF assms])
  fix k assume "k < length (map vote_of (validate_votes vote_df voter_df))"
  with len have k: "k < length vote_df" by simp
  then show "map vote_of (validate_votes vote_df voter_df) ! k = vote_df ! k"
    by (simp add: validate_votes_def before_multiple_awards_def length_passes vote_of_passes
        merge_left_distinct [OF assms] vote_of_with_error)
qed

lemma for_each_rows:
  "for_each f xs = Inr ys \<Longrightarrow> y \<in> set ys \<Longrightarrow> \<exists>x \<in> set xs. f x = Inr y"
proof (induction xs arbitrary: ys)
  case Nil
  then show ?case by simp
next
  case (Cons x xs)
  from Cons.prems(1) obtain y0 ys0 where fx: "f x = Inr y0" and rest: "for_each f xs = Inr ys0"
    and ys: "ys = y0 # ys0"
    by (auto split: sum.splits)
  from Cons.prems(2) ys consider "y = y0" | "y \<in> set ys0" by auto
  then show ?case
  proof cases
    case 1
    with fx show ?thesis by simp
  next
    case 2
    from Cons.IH [OF rest 2] show ?thesis by auto
  qed
qed

lemma validate_voter_name:
  "validate_voter start_date name u = Inr row \<Longrightarrow> v_voter row = name"
  by (auto simp: validate_voter_def Let_def loc_set_def split: if_splits option.splits column.splits)

lemma validate_voter_rule3:
  assumes "\<not> is_ip_address name" and "isRegistered u"
    and "registration u = Some reg_date"
    and "(start_date - reg_date) div 86400 < 10" and "editCount u < 50"
  shows "validate_voter start_date name u =
     Inr \<lparr>v_voter = name,
          v_error = (if list_ex direct_submission (contributions u) then 0 else 4),
          v_note = (if list_ex direct_submission (contributions u) then 4
                    else if is_blocked u then 1 else 0),
          v_edit_count = editCount u, v_reg_date = Some reg_date\<rparr>"
  using assms by (simp add: validate_voter_def Let_def loc_set_def)

lemma validate_voters_rows:
  assumes "validate_voters site vote_df start_date = Inr voter_df" and "row \<in> set voter_df"
  shows "validate_voter start_date (v_voter row) (site (v_voter row)) = Inr row"
proof -
  let ?names = "filter (\<lambda>name. name \<noteq> []) (unique (map voter vote_df))"
  from assms(1) have "for_each (\<lambda>name. validate_voter start_date name (site name)) ?names
                      = Inr voter_df"
    by (auto simp: validate_voters_def Let_def split: sum.splits if_splits)
  from for_each_rows [OF this assms(2)] obtain name
    where "validate_voter start_date name (site name) = Inr row" by auto
  moreover from this have "v_voter row = name" by (rule validate_voter_name)
  ultimately show ?thesis by simp
qed

lemma takeWhile_descending:
  assumes "sorted_wrt (\<ge>) ys" and "a \<in> set ys"
  shows "takeWhile (\<lambda>b. b \<noteq> a) ys = filter (\<lambda>b. a < b) (ys :: rat list)"
  using assms
proof (induction ys)
  case Nil
  then show ?case by simp
next
  case (Cons y ys)
  from Cons.prems(1) have below: "\<forall>z \<in> set ys. z \<le> y" and desc: "sorted_wrt (\<ge>) ys"
    by simp_all
  show ?case
  proof (cases "y = a")
    case True
    with below have "filter (\<lambda>b. a < b) ys = []"
      by (auto simp: filter_empty_conv)
    with True show ?thesis by simp
  next
    case False
    with Cons.prems(2) have mem: "a \<in> set ys" by simp
    with below False have "a < y" by auto
    with False Cons.IH [OF desc mem] show ?thesis by simp
  qed
qed

lemma length_filter_sort_key:
  "length (filter Q (sort_key f xs)) = length (filter Q xs)"
  by (simp add: filter_sort)

lemma map_filter_id_conv:
  "List.map_filter id col = map the (filter (\<lambda>k. k \<noteq> None) col)"
  by (simp add: List.map_filter_def)

lemma count_greater_values:
  "length (filter (\<lambda>b. a < b) (List.map_filter id col)) = count_greater a col"
  unfolding count_greater_def
  by (induction col) (auto simp: List.map_filter_simps split: option.splits)

lemma rank_min_descending_eq:
  "rank_min_descending col = map (map_option (\<lambda>a. 1 + count_greater a col)) col"
proof -
  let ?vals = "List.map_filter id col"
  let ?ordered = "rev (sort ?vals)"
  have desc: "sorted_wrt (\<ge>) ?ordered"
    using sorted_sort [of ?vals] by (simp add: sorted_wrt_rev)
  have "map_option (\<lambda>a. 1 + length (takeWhile (\<lambda>b. b \<noteq> a) ?ordered)) k
        = map_option (\<lambda>a. 1 + count_greater a col) k" if "k \<in> set col" for k
  proof (cases k)
    case None
    then show ?thesis by simp
  next
    case (Some a)
    with that have "a \<in> set ?vals"
      by (force simp: map_filter_id_conv)
    then have "a \<in> set ?ordered" by simp
    from takeWhile_descending [OF desc this]
    have "length (takeWhile (\<lambda>b. b \<noteq> a) ?ordered) = length (filter (\<lambda>b. a < b) ?ordered)"
      by simp
    also have "\<dots> = length (filter (\<lambda>b. a < b) ?vals)"
      by (simp add: rev_filter [symmetric] length_filter_sort_key)
    also have "\<dots> = count_greater a col" by (rule count_greater_values)
    finally show ?thesis using Some by simp
  qed
  then show ?thesis
    unfolding rank_min_descending_def Let_def by (intro map_cong refl)
qed

lemma length_filter_partition:
  "length (filter (\<lambda>x. P x \<and> Q x) xs) + length (filter (\<lambda>x. \<not> P x \<and> Q x) xs)
   = length (filter Q xs)"
  by (induction xs) simp_all

lemma length_filter_sort_values:
  "length (filter Q (sort_values df)) = length (filter Q df)"
proof -
  let ?P = "\<lambda>x::'a \<times> rat option. snd x \<noteq> None"
  have split: "sort_values df =
      sort_key (\<lambda>(r, k). case k of Some a \<Rightarrow> - a | None \<Rightarrow> 0) (filter ?P df)
      @ filter (\<lambda>x. \<not> ?P x) df"
  proof -
    have p: "(\<lambda>(r::'a, k::rat option). k \<noteq> None) = ?P"
      and n: "(\<lambda>(r::'a, k::rat option). k = None) = (\<lambda>x. \<not> ?P x)"
      by (auto simp: fun_eq_iff)
    show ?thesis unfolding sort_values_def p n ..
  qed
  have "length (filter Q (sort_values df))
        = length (filter Q (filter ?P df)) + length (filter Q (filter (\<lambda>x. \<not> ?P x) df))"
    unfolding split by (simp only: filter_append length_append length_filter_sort_key)
  also have "\<dots> = length (filter (\<lambda>x. ?P x \<and> Q x) df)
                 + length (filter (\<lambda>x. \<not> ?P x \<and> Q x) df)"
    by (simp only: filter_filter conj_commute)
  also have "\<dots> = length (filter Q df)" by (rule length_filter_partition)
  finally show ?thesis .
qed

lemma set_sort_values: "set (sort_values df) = set df"
  unfolding sort_values_def by auto

lemma count_greater_sort_values:
  "count_greater a (map snd (sort_values df)) = count_greater a (map snd df)"
  unfolding count_greater_def filter_map length_map
  by (rule length_filter_sort_values)

text \<open>Rounding to \<^verbatim>\<open>float64\<close>.\<close>

lemma bitlen_power_int:
  fixes n :: int
  assumes "0 < n"
  shows "(2::rat) powi (bitlen n - 1) \<le> of_int n" "of_int n < (2::rat) powi (bitlen n)"
proof -
  from bitlen_bounds [OF assms]
  have lo: "2 ^ nat (bitlen n - 1) \<le> n" and hi: "n < 2 ^ nat (bitlen n)" by simp_all
  have pos: "0 < bitlen n"
  proof (rule ccontr)
    assume "\<not> 0 < bitlen n"
    then have "nat (bitlen n) = 0" by simp
    with hi assms show False by simp
  qed
  have "(2::rat) powi (bitlen n - 1) = 2 ^ nat (bitlen n - 1)"
    using pos by (simp add: power_int_def)
  also have "\<dots> = of_int (2 ^ nat (bitlen n - 1))" by simp
  also have "\<dots> \<le> of_int n" using lo by (simp only: of_int_le_iff)
  finally show "(2::rat) powi (bitlen n - 1) \<le> of_int n" .
  have "(of_int n :: rat) < of_int (2 ^ nat (bitlen n))" using hi by (simp only: of_int_less_iff)
  also have "\<dots> = 2 powi (bitlen n)" using pos by (simp add: power_int_def)
  finally show "of_int n < (2::rat) powi (bitlen n)" .
qed

lemma float_exponent_bounds:
  assumes "x \<noteq> 0"
  shows "2 powi (float_exponent x) \<le> \<bar>x\<bar>" "\<bar>x\<bar> < 2 powi (float_exponent x + 1)"
proof -
  obtain n d where q: "quotient_of \<bar>x\<bar> = (n, d)" by (cases "quotient_of \<bar>x\<bar>")
  then have d: "0 < d" and x: "\<bar>x\<bar> = of_int n / of_int d"
    by (simp_all add: quotient_of_denom_pos quotient_of_div)
  from assms have "0 < \<bar>x\<bar>" by simp
  with x d have n: "0 < n" by (simp add: zero_less_divide_iff)
  let ?e0 = "bitlen n - bitlen d"
  have lower: "2 powi (?e0 - 1) \<le> \<bar>x\<bar>"
  proof -
    have "?e0 - 1 = bitlen n - 1 - bitlen d" by simp
    also have "(2::rat) powi (bitlen n - 1 - bitlen d) = 2 powi (bitlen n - 1) / 2 powi (bitlen d)"
      by (rule power_int_diff) simp
    also have "\<dots> \<le> of_int n / of_int d"
      using bitlen_power_int [OF n] bitlen_power_int [OF d] d n
      by (intro frac_le) simp_all
    finally show ?thesis by (simp add: x)
  qed
  have upper: "\<bar>x\<bar> < 2 powi (?e0 + 1)"
  proof -
    have "of_int n / of_int d < (2::rat) powi (bitlen n) / 2 powi (bitlen d - 1)"
      using bitlen_power_int [OF n] bitlen_power_int [OF d] n d
      by (intro frac_less) simp_all
    also have "\<dots> = 2 powi (bitlen n - (bitlen d - 1))"
      by (rule power_int_diff [symmetric]) simp
    also have "bitlen n - (bitlen d - 1) = ?e0 + 1" by simp
    finally show ?thesis by (simp add: x)
  qed
  have e: "float_exponent x = (if 2 powi ?e0 \<le> \<bar>x\<bar> then ?e0 else ?e0 - 1)"
    by (simp add: float_exponent_def q Let_def)
  show "2 powi (float_exponent x) \<le> \<bar>x\<bar>" using lower by (simp add: e)
  show "\<bar>x\<bar> < 2 powi (float_exponent x + 1)" using upper by (auto simp: e not_le)
qed

lemma round_half_even_error: "\<bar>of_int (round_half_even y) - y\<bar> \<le> 1 / 2"
proof -
  have "of_int \<lfloor>y\<rfloor> \<le> y" "y < of_int \<lfloor>y\<rfloor> + 1" by linarith+
  then show ?thesis
    by (auto simp: round_half_even_def Let_def abs_le_iff)
qed

lemma round_half_even_of_int: "round_half_even (of_int k) = k"
  by (simp add: round_half_even_def Let_def)

lemma power_int_less_exponent:
  assumes "(2::rat) powi a \<le> x" and "x < 2 powi b"
  shows "a < b"
proof (rule ccontr)
  assume "\<not> a < b"
  then have "(2::rat) powi b \<le> 2 powi a" by (intro power_int_increasing) simp_all
  with assms show False by simp
qed

lemma float64_error:
  assumes "\<bar>x\<bar> < 2 powi k" and "- 1021 \<le> k"
  shows "\<bar>float64 x - x\<bar> \<le> 2 powi (k - 54)"
proof (cases "x = 0")
  case True
  then show ?thesis by (simp add: float64_def)
next
  case False
  let ?e = "max (float_exponent x) (- 1022)"
  let ?ulp = "(2::rat) powi (?e - 52)"
  have ulp: "0 < ?ulp" by simp
  from float_exponent_bounds(1) [OF False] assms(1) have "float_exponent x < k"
    by (rule power_int_less_exponent)
  with assms(2) have e: "?e - 53 \<le> k - 54" by simp
  have fl: "float64 x = of_int (round_half_even (x / ?ulp)) * ?ulp"
    using False by (simp add: float64_def Let_def)
  have "float64 x - x = (of_int (round_half_even (x / ?ulp)) - x / ?ulp) * ?ulp"
    unfolding fl using ulp by (simp add: field_simps)
  then have "\<bar>float64 x - x\<bar> = \<bar>of_int (round_half_even (x / ?ulp)) - x / ?ulp\<bar> * ?ulp"
    using ulp by (simp add: abs_mult)
  also have "\<dots> \<le> 1 / 2 * ?ulp"
    using ulp round_half_even_error [of "x / ?ulp"] by (intro mult_right_mono) simp_all
  also have "1 / 2 * ?ulp = 2 powi (?e - 53)"
  proof -
    have "?e - 53 = (?e - 52) - 1" by simp
    also have "(2::rat) powi ((?e - 52) - 1) = 2 powi (?e - 52) / 2 powi 1"
      by (rule power_int_diff) simp
    finally show ?thesis by simp
  qed
  also have "\<dots> \<le> 2 powi (k - 54)" using e by (intro power_int_increasing) simp_all
  finally show ?thesis .
qed

lemma float64_of_int:
  assumes "\<bar>n\<bar> < 2 ^ 53"
  shows "float64 (of_int n) = of_int n"
proof (cases "n = 0")
  case True
  then show ?thesis by (simp add: float64_def)
next
  case False
  let ?x = "of_int n :: rat"
  let ?e = "float_exponent ?x"
  have x: "?x \<noteq> 0" using False by simp
  have one: "(2::rat) powi 0 \<le> \<bar>?x\<bar>"
  proof -
    from False have "1 \<le> \<bar>n\<bar>" by simp
    then have "(1::rat) \<le> of_int \<bar>n\<bar>" by (simp only: of_int_1_le_iff)
    then show ?thesis by simp
  qed
  have big: "\<bar>?x\<bar> < 2 powi 53"
  proof -
    from assms have "(of_int \<bar>n\<bar> :: rat) < of_int (2 ^ 53)" by (simp only: of_int_less_iff)
    then show ?thesis by simp
  qed
  from float_exponent_bounds(1) [OF x] big have hi: "?e < 53"
    by (rule power_int_less_exponent)
  from one float_exponent_bounds(2) [OF x] have "0 < ?e + 1"
    by (rule power_int_less_exponent)
  then have lo: "0 \<le> ?e" by simp
  define j where "j = nat (52 - ?e)"
  have j: "?e - 52 = - int j" using hi by (simp add: j_def)
  have emax: "max ?e (- 1022) = ?e" using lo by simp
  have ulp: "(2::rat) powi (?e - 52) = inverse (2 ^ j)"
    unfolding j by (simp add: power_int_minus)
  have "?x / inverse (2 ^ j) = of_int (n * 2 ^ j)" by (simp add: field_simps)
  then have "round_half_even (?x / inverse (2 ^ j)) = n * 2 ^ j"
    by (simp only: round_half_even_of_int)
  then show ?thesis
    using x by (simp add: float64_def Let_def emax ulp)
qed

lemma lex_int:
  fixes s p s' p' M :: int
  assumes "0 \<le> p" "p < M" "0 \<le> p'" "p' < M"
  shows "s * M + p < s' * M + p' \<longleftrightarrow> s < s' \<or> (s = s' \<and> p < p')"
proof -
  have M: "0 < M" using assms by simp
  consider (less) "s < s'" | (eq) "s = s'" | (greater) "s' < s" by linarith
  then show ?thesis
  proof cases
    case less
    then have "(s + 1) * M \<le> s' * M" using M by (intro mult_right_mono) simp_all
    then have "s * M + M \<le> s' * M" by (simp add: algebra_simps)
    with assms less show ?thesis by simp
  next
    case eq
    then show ?thesis by simp
  next
    case greater
    then have "(s' + 1) * M \<le> s * M" using M by (intro mult_right_mono) simp_all
    then have "s' * M + M \<le> s * M" by (simp add: algebra_simps)
    with assms greater show ?thesis by simp
  qed
qed

lemma exact_key_gap:
  fixes s p s' p' M :: int
  assumes "0 \<le> p" "p < M" "0 \<le> p'" "p' < M"
    and "s < s' \<or> (s = s' \<and> p < p')"
  shows "(of_int s + of_int p / of_int M :: rat) + 1 / of_int M
         \<le> of_int s' + of_int p' / of_int M"
proof -
  have M: "(0::rat) < of_int M" using assms by simp
  from assms have "s * M + p < s' * M + p'" by (simp add: lex_int)
  then have "s * M + p + 1 \<le> s' * M + p'" by simp
  then have "(of_int (s * M + p + 1) :: rat) \<le> of_int (s' * M + p')"
    by (simp only: of_int_le_iff)
  then have "(of_int (s * M + p + 1) :: rat) / of_int M \<le> of_int (s' * M + p') / of_int M"
    using M by (simp add: divide_right_mono)
  then show ?thesis using M by (simp add: field_simps)
qed

lemma float_key_close:
  assumes s: "\<bar>s\<bar> < 2 ^ 24" and p: "0 \<le> p" "p < M"
  shows "\<bar>float_key s p M - (of_int s + of_int p / of_int M)\<bar> \<le> 1 / 268435456"
proof -
  let ?r = "of_int p / of_int M :: rat"
  let ?q = "float64 ?r"
  let ?x = "of_int s + ?q"
  have M: "(0::rat) < of_int M" using p by simp
  have r: "0 \<le> ?r" "?r < 1" using p M by simp_all
  then have "\<bar>?r\<bar> < 2 powi 0" by simp
  then have "\<bar>?q - ?r\<bar> \<le> 2 powi (0 - 54)" by (rule float64_error) simp
  then have q: "\<bar>?q - ?r\<bar> \<le> 1 / 18014398509481984" by simp
  have "(of_int \<bar>s\<bar> :: rat) < of_int (2 ^ 24)" using s by (simp only: of_int_less_iff)
  then have sr: "\<bar>of_int s :: rat\<bar> < 16777216" by simp
  from sr r q have "\<bar>?x\<bar> < 33554432" by linarith
  then have "\<bar>?x\<bar> < 2 powi 25" by simp
  then have "\<bar>float64 ?x - ?x\<bar> \<le> 2 powi (25 - 54)" by (rule float64_error) simp
  then have x: "\<bar>float64 ?x - ?x\<bar> \<le> 1 / 536870912" by simp
  have "float_key s p M = float64 ?x" by (simp add: float_key_def)
  with x q show ?thesis by linarith
qed

lemma float_key_mono:
  assumes "\<bar>s\<bar> < 2 ^ 24" "\<bar>s'\<bar> < 2 ^ 24" "0 \<le> p" "p < M" "0 \<le> p'" "p' < M" "M \<le> 2 ^ 20"
    and "s < s' \<or> (s = s' \<and> p < p')"
  shows "float_key s p M < float_key s' p' M"
proof -
  have M: "(0::rat) < of_int M" using assms by simp
  have "(of_int M :: rat) \<le> of_int (2 ^ 20)" using assms(7) by (simp only: of_int_le_iff)
  then have "(of_int M :: rat) \<le> 1048576" by simp
  with M have "1 / (1048576 :: rat) \<le> 1 / of_int M" by (intro frac_le) simp_all
  with exact_key_gap [OF assms(3-6,8)]
  have gap: "(of_int s + of_int p / of_int M :: rat) + 1 / 1048576
             \<le> of_int s' + of_int p' / of_int M" by linarith
  from float_key_close [OF assms(1,3,4)] float_key_close [OF assms(2,5,6)] gap
  show ?thesis by linarith
qed

lemma float_key_less_iff:
  assumes "\<bar>s\<bar> < 2 ^ 24" "\<bar>s'\<bar> < 2 ^ 24" "0 \<le> p" "p < M" "0 \<le> p'" "p' < M" "M \<le> 2 ^ 20"
  shows "float_key s p M < float_key s' p' M \<longleftrightarrow> s < s' \<or> (s = s' \<and> p < p')"
proof
  assume less: "float_key s p M < float_key s' p' M"
  show "s < s' \<or> (s = s' \<and> p < p')"
  proof (rule ccontr)
    assume "\<not> ?thesis"
    then consider "s = s' \<and> p = p'" | "s' < s \<or> (s' = s \<and> p' < p)" by linarith
    then show False
    proof cases
      case 1
      with less show False by simp
    next
      case 2
      from float_key_mono [OF assms(2,1,5,6,3,4,7) 2] less show False by simp
    qed
  qed
next
  assume "s < s' \<or> (s = s' \<and> p < p')"
  with assms show "float_key s p M < float_key s' p' M" by (rule float_key_mono)
qed

lemma wrap64_small: "\<bar>x\<bar> < 2 ^ 63 \<Longrightarrow> wrap64 x = x"
  by (simp add: wrap64_def)

text \<open>The frame that \<^verbatim>\<open>count_votes\<close> returns, row by row.\<close>

lemma map_zip_map: "map F (zip xs (map g xs)) = map (\<lambda>x. F (x, g x)) xs"
  by (induction xs) simp_all

lemma zip_columns: "zip xs (zip (map g xs) (map h xs)) = map (\<lambda>x. (x, g x, h x)) xs"
  by (induction xs) simp_all

lemma score_column:
  "merged_column (map (\<lambda>f. map_of (groupby_sum (counted_votes vote_df)) (f_num f)) file_df)
   = map (score_cell vote_df file_df) file_df"
proof -
  have "(\<lambda>f. map_of (groupby_sum (counted_votes vote_df)) (f_num f)) = score_nan vote_df"
    by (simp add: fun_eq_iff score_nan_def)
  then show ?thesis by (simp add: merged_column_def score_cell_def)
qed

lemma support_column:
  "merged_column (map (\<lambda>f. map_of (groupby_count (counted_votes vote_df)) (f_num f)) file_df)
   = map (support_cell vote_df file_df) file_df"
proof -
  have "(\<lambda>f. map_of (groupby_count (counted_votes vote_df)) (f_num f)) = support_nan vote_df"
    by (simp add: fun_eq_iff support_nan_def)
  then show ?thesis by (simp add: merged_column_def support_cell_def)
qed

lemma count_votes_result:
  "count_votes vote_df file_df =
     map (\<lambda>x. result_of vote_df file_df (fst (fst x)))
       (sort_values (map (\<lambda>f. ((f, score_cell vote_df file_df f, support_cell vote_df file_df f),
                                key_of vote_df file_df f)) file_df))"
proof -
  let ?S = "score_cell vote_df file_df" and ?P = "support_cell vote_df file_df"
    and ?K = "key_of vote_df file_df"
  let ?keyed = "map (\<lambda>f. ((f, ?S f, ?P f), ?K f)) file_df"
  let ?ordered = "sort_values ?keyed"
  let ?rk = "map_option (\<lambda>a. 1 + count_greater a (map ?K file_df))"
  let ?mk = "\<lambda>(((f, s, p), k), r).
               \<lparr>f_num = f_num f, file_name = file_name f, title = title f,
                f_creator = f_creator f, score = fillna 0 (map_option astype_int s),
                support = fillna 0 (map_option astype_int p),
                score2 = k, rank = fillna 0 (map_option int r)\<rparr>"
  have keyed: "map (\<lambda>(f, s, p). ((f, s, p), score2_of s p (max_support vote_df file_df)))
      (zip file_df (zip (map ?S file_df) (map ?P file_df))) = ?keyed"
    unfolding zip_columns by (simp add: key_of_def comp_def)
  have unfolded: "count_votes vote_df file_df
      = map ?mk (zip ?ordered (rank_min_descending (map snd ?ordered)))"
    unfolding count_votes_def Let_def counted_votes_def [symmetric] score_column support_column
      max_support_def [symmetric] keyed ..
  have col: "map snd ?keyed = map ?K file_df" by (simp add: comp_def)
  have ranks: "rank_min_descending (map snd ?ordered) = map (\<lambda>x. ?rk (snd x)) ?ordered"
    unfolding rank_min_descending_eq count_greater_sort_values col by (simp add: comp_def)
  have "count_votes vote_df file_df = map (\<lambda>x. ?mk (x, ?rk (snd x))) ?ordered"
    unfolding unfolded ranks by (rule map_zip_map)
  also have "\<dots> = map (\<lambda>x. result_of vote_df file_df (fst (fst x))) ?ordered"
  proof (rule map_cong [OF refl])
    fix x assume "x \<in> set ?ordered"
    then have "x \<in> set ?keyed" by (simp add: set_sort_values)
    then obtain f where "x = ((f, ?S f, ?P f), ?K f)" by auto
    then show "?mk (x, ?rk (snd x)) = result_of vote_df file_df (fst (fst x))"
      by (simp add: result_of_def option.map_comp comp_def)
  qed
  finally show ?thesis .
qed

lemma set_count_votes:
  "set (count_votes vote_df file_df) = result_of vote_df file_df ` set file_df"
  unfolding count_votes_result by (force simp: set_sort_values)

lemma length_filter_count_votes:
  "length (filter Q (count_votes vote_df file_df))
   = length (filter (\<lambda>f. Q (result_of vote_df file_df f)) file_df)"
proof -
  let ?keyed = "map (\<lambda>f. ((f, score_cell vote_df file_df f, support_cell vote_df file_df f),
                                key_of vote_df file_df f)) file_df"
  let ?g = "\<lambda>x::(file_row \<times> rat option \<times> rat option) \<times> rat option.
              result_of vote_df file_df (fst (fst x))"
  have "length (filter Q (count_votes vote_df file_df))
        = length (filter (Q \<circ> ?g) (sort_values ?keyed))"
    unfolding count_votes_result by (simp add: filter_map)
  also have "\<dots> = length (filter (Q \<circ> ?g) ?keyed)"
    by (rule length_filter_sort_values)
  also have "\<dots> = length (filter (\<lambda>f. Q (result_of vote_df file_df f)) file_df)"
    by (simp add: filter_map comp_def)
  finally show ?thesis .
qed

text \<open>The sums and counts of the groups.\<close>

lemma set_unique_from: "set (unique_from seen xs) = set xs - set seen"
  by (induction xs arbitrary: seen) auto

lemma set_unique: "set (unique xs) = set xs"
  by (simp add: unique_def set_unique_from)

lemma map_of_keyed:
  "map_of (map (\<lambda>k. (k, g k)) ks) k = (if k \<in> set ks then Some (g k) else None)"
  by (induction ks) simp_all

lemma map_of_groupby_sum:
  "map_of (groupby_sum votes) k =
     (if k \<in> num ` set votes
      then Some (wrap64 (sum_list (map award (filter (\<lambda>v. num v = k) votes)))) else None)"
  by (simp add: groupby_sum_def map_of_keyed set_unique)

lemma map_of_groupby_count:
  "map_of (groupby_count votes) k =
     (if k \<in> num ` set votes
      then Some (int (length (filter (\<lambda>v. num v = k) votes))) else None)"
  by (simp add: groupby_count_def map_of_keyed set_unique)

lemma support_nan_positive:
  assumes "support_nan vote_df f = Some p"
  shows "1 \<le> p"
proof -
  let ?votes = "counted_votes vote_df"
  from assms have mem: "f_num f \<in> num ` set ?votes"
    and p: "p = int (length (filter (\<lambda>v. num v = f_num f) ?votes))"
    by (auto simp: support_nan_def map_of_groupby_count split: if_splits)
  from mem obtain v where "v \<in> set ?votes" "num v = f_num f" by auto
  then have "filter (\<lambda>v. num v = f_num f) ?votes \<noteq> []"
    by (auto simp: filter_empty_conv)
  then have "1 \<le> int (length (filter (\<lambda>v. num v = f_num f) ?votes))"
    by (cases "filter (\<lambda>v. num v = f_num f) ?votes") simp_all
  with p show ?thesis by simp
qed

lemma score_nan_None_iff:
  "score_nan vote_df f = None \<longleftrightarrow> support_nan vote_df f = None"
  by (simp add: score_nan_def support_nan_def map_of_groupby_sum map_of_groupby_count)

lemma sum_awards_bound:
  "list_all (\<lambda>v. \<bar>award v\<bar> < 10) votes \<Longrightarrow>
   \<bar>sum_list (map award votes)\<bar> \<le> 9 * int (length votes)"
  by (induction votes) auto

lemma ordinary_score:
  assumes "ordinary_round vote_df" and "score_nan vote_df f = Some s"
  shows "\<bar>s\<bar> < 2 ^ 24"
proof -
  let ?group = "filter (\<lambda>v. num v = f_num f) (counted_votes vote_df)"
  have sub: "set ?group \<subseteq> set vote_df" by (auto simp: counted_votes_def)
  have "length ?group \<le> length vote_df"
    unfolding counted_votes_def filter_filter by (rule length_filter_le)
  with assms(1) have len: "int (length ?group) < 2 ^ 20" by (simp add: ordinary_round_def)
  from assms(1) sub have "list_all (\<lambda>v. \<bar>award v\<bar> < 10) ?group"
    by (auto simp: ordinary_round_def list_all_iff)
  from sum_awards_bound [OF this] len
  have sum: "\<bar>sum_list (map award ?group)\<bar> < 2 ^ 24" by simp
  then have "wrap64 (sum_list (map award ?group)) = sum_list (map award ?group)"
    by (intro wrap64_small) simp
  moreover from assms(2) have "s = wrap64 (sum_list (map award ?group))"
    by (auto simp: score_nan_def map_of_groupby_sum split: if_splits)
  ultimately show ?thesis using sum by simp
qed

lemma ordinary_support:
  assumes "ordinary_round vote_df" and "support_nan vote_df f = Some p"
  shows "p < 2 ^ 20"
proof -
  let ?group = "filter (\<lambda>v. num v = f_num f) (counted_votes vote_df)"
  have "length ?group \<le> length vote_df"
    unfolding counted_votes_def filter_filter by (rule length_filter_le)
  with assms(1) have "int (length ?group) < 2 ^ 20" by (simp add: ordinary_round_def)
  moreover from assms(2) have "p = int (length ?group)"
    by (auto simp: support_nan_def map_of_groupby_count split: if_splits)
  ultimately show ?thesis by simp
qed

lemma nan_max_props:
  assumes "Some x \<in> set col"
  shows "\<exists>m. nan_max col = Some m \<and> Some m \<in> set col \<and> x \<le> m"
proof -
  from assms have mem: "x \<in> set (List.map_filter id col)"
    by (force simp: map_filter_id_conv)
  then obtain y ys where vals: "List.map_filter id col = y # ys"
    by (cases "List.map_filter id col") auto
  have fold: "fold max ys y = Max (set (y # ys))" by (rule Max.set_eq_fold [symmetric])
  have "Max (set (y # ys)) \<in> set (y # ys)" by (intro Max_in) simp_all
  then have "Max (set (y # ys)) \<in> set (List.map_filter id col)" by (simp add: vals)
  then have "Some (Max (set (y # ys))) \<in> set col"
    by (auto simp: map_filter_id_conv)
  moreover have "x \<le> Max (set (y # ys))" using mem vals by (intro Max_ge) simp_all
  ultimately show ?thesis by (simp add: nan_max_def vals fold)
qed

text \<open>In a round of ordinary size the conversions to \<^verbatim>\<open>float64\<close> are exact.\<close>

lemma ordinary_score_cell:
  assumes "ordinary_round vote_df"
  shows "score_cell vote_df file_df f = map_option of_int (score_nan vote_df f)"
proof (cases "score_nan vote_df f")
  case None
  then show ?thesis by (simp add: score_cell_def)
next
  case (Some s)
  from ordinary_score [OF assms Some] have "\<bar>s\<bar> < 2 ^ 53" by simp
  then have "float64 (of_int s) = of_int s" by (rule float64_of_int)
  with Some show ?thesis by (simp add: score_cell_def)
qed

lemma ordinary_support_cell:
  assumes "ordinary_round vote_df"
  shows "support_cell vote_df file_df f = map_option of_int (support_nan vote_df f)"
proof (cases "support_nan vote_df f")
  case None
  then show ?thesis by (simp add: support_cell_def)
next
  case (Some p)
  from ordinary_support [OF assms Some] support_nan_positive [OF Some]
  have "\<bar>p\<bar> < 2 ^ 53" by simp
  then have "float64 (of_int p) = of_int p" by (rule float64_of_int)
  with Some show ?thesis by (simp add: support_cell_def)
qed

lemma ordinary_max_support:
  assumes ord: "ordinary_round vote_df" and f: "f \<in> set file_df"
    and p: "support_nan vote_df f = Some p"
  shows "\<exists>M. max_support vote_df file_df = Some (of_int M) \<and> p < M \<and> M \<le> 2 ^ 20"
proof -
  let ?col = "map (support_cell vote_df file_df) file_df"
  have cell: "support_cell vote_df file_df g = map_option of_int (support_nan vote_df g)" for g
    by (rule ordinary_support_cell [OF ord])
  from f p have "Some (of_int p) \<in> set ?col" by (force simp: cell)
  from nan_max_props [OF this] obtain m
    where m: "nan_max ?col = Some m" "Some m \<in> set ?col" "of_int p \<le> m" by auto
  from m(2) obtain g where "Some m = map_option of_int (support_nan vote_df g)"
    by (auto simp: cell)
  then obtain p0 where g: "support_nan vote_df g = Some p0" "m = of_int p0"
    by (cases "support_nan vote_df g") auto
  from ordinary_support [OF ord g(1)] support_nan_positive [OF g(1)]
  have p0: "1 \<le> p0" "p0 < 2 ^ 20" by simp_all
  then have "\<bar>p0 + 1\<bar> < 2 ^ 53" by simp
  then have "float64 (of_int (p0 + 1)) = of_int (p0 + 1)" by (rule float64_of_int)
  then have "max_support vote_df file_df = Some (of_int (p0 + 1))"
    by (simp add: max_support_def m(1) g(2))
  moreover from m(3) g(2) have "p \<le> p0" by simp
  ultimately show ?thesis using p0 by (intro exI [of _ "p0 + 1"]) simp
qed

text \<open>What \<open>result_of\<close> holds for an entry without and with counted votes.\<close>

lemma result_without_votes:
  assumes "support_nan vote_df f = None"
  shows "key_of vote_df file_df f = None" "score (result_of vote_df file_df f) = 0"
    "support (result_of vote_df file_df f) = 0" "rank (result_of vote_df file_df f) = 0"
  using assms score_nan_None_iff [of vote_df f]
  by (simp_all add: result_of_def key_of_def score2_of_def fillna_def score_cell_def
      support_cell_def)

lemma result_with_votes:
  assumes "ordinary_round vote_df" and "f \<in> set file_df"
    and "support_nan vote_df f = Some p"
  obtains s M where "max_support vote_df file_df = Some (of_int M)"
    "\<bar>s\<bar> < 2 ^ 24" "1 \<le> p" "p < M" "M \<le> 2 ^ 20"
    "key_of vote_df file_df f = Some (float_key s p M)"
    "score (result_of vote_df file_df f) = s" "support (result_of vote_df file_df f) = p"
proof -
  from assms(3) score_nan_None_iff [of vote_df f] obtain s
    where s: "score_nan vote_df f = Some s" by (cases "score_nan vote_df f") auto
  from ordinary_max_support [OF assms] obtain M
    where M: "max_support vote_df file_df = Some (of_int M)" "p < M" "M \<le> 2 ^ 20" by auto
  have sb: "\<bar>s\<bar> < 2 ^ 24" by (rule ordinary_score [OF assms(1) s])
  have pb: "1 \<le> p" by (rule support_nan_positive [OF assms(3)])
  have sc: "score_cell vote_df file_df f = Some (of_int s)"
    by (simp add: ordinary_score_cell [OF assms(1)] s)
  have pc: "support_cell vote_df file_df f = Some (of_int p)"
    by (simp add: ordinary_support_cell [OF assms(1)] assms(3))
  have fs: "float64 (of_int s) = of_int s" using sb by (intro float64_of_int) simp
  have fp: "float64 (of_int p) = of_int p" using pb M(2,3) by (intro float64_of_int) simp
  have fM: "float64 (of_int M) = of_int M" using pb M(2,3) by (intro float64_of_int) simp
  have key: "key_of vote_df file_df f = Some (float_key s p M)"
    by (simp add: key_of_def score2_of_def sc pc M(1) fs fp fM float_key_def)
  have "wrap64 s = s" using sb by (intro wrap64_small) simp
  then have so: "score (result_of vote_df file_df f) = s"
    by (simp add: result_of_def sc fillna_def astype_int_def)
  have "wrap64 p = p" using pb M(2,3) by (intro wrap64_small) simp
  then have po: "support (result_of vote_df file_df f) = p"
    by (simp add: result_of_def pc fillna_def astype_int_def)
  show thesis by (rule that [OF M(1) sb pb M(2,3) key so po])
qed

lemma counted_iff:
  assumes "ordinary_round vote_df" and "f \<in> set file_df"
  shows "0 < support (result_of vote_df file_df f) \<longleftrightarrow> support_nan vote_df f \<noteq> None"
proof (cases "support_nan vote_df f")
  case None
  then show ?thesis by (simp add: result_without_votes)
next
  case (Some p)
  from result_with_votes [OF assms Some] obtain s M where
    "1 \<le> p" "support (result_of vote_df file_df f) = p" by metis
  with Some show ?thesis by simp
qed

lemma key_greater_iff:
  assumes ord: "ordinary_round vote_df"
    and f: "f \<in> set file_df" and g: "g \<in> set file_df"
    and kf: "key_of vote_df file_df f = Some a"
  shows "(case key_of vote_df file_df g of Some b \<Rightarrow> a < b | None \<Rightarrow> False)
         \<longleftrightarrow> 0 < support (result_of vote_df file_df g)
             \<and> better (result_of vote_df file_df g) (result_of vote_df file_df f)"
proof (cases "support_nan vote_df g")
  case None
  then show ?thesis by (simp add: result_without_votes)
next
  case (Some q)
  from kf have "support_nan vote_df f \<noteq> None"
    using result_without_votes(1) [of vote_df f file_df] by auto
  then obtain p where p: "support_nan vote_df f = Some p" by auto
  from result_with_votes [OF ord f p] obtain s M where
    F: "max_support vote_df file_df = Some (of_int M)" "\<bar>s\<bar> < 2 ^ 24" "1 \<le> p" "p < M"
       "M \<le> 2 ^ 20" "key_of vote_df file_df f = Some (float_key s p M)"
       "score (result_of vote_df file_df f) = s" "support (result_of vote_df file_df f) = p"
    by metis
  from result_with_votes [OF ord g Some] obtain t M' where
    G: "max_support vote_df file_df = Some (of_int M')" "\<bar>t\<bar> < 2 ^ 24" "1 \<le> q" "q < M'"
       "M' \<le> 2 ^ 20" "key_of vote_df file_df g = Some (float_key t q M')"
       "score (result_of vote_df file_df g) = t" "support (result_of vote_df file_df g) = q"
    by metis
  from F(1) G(1) have MM: "M' = M" by simp
  from kf F(6) have a: "a = float_key s p M" by simp
  have "float_key s p M < float_key t q M \<longleftrightarrow> s < t \<or> (s = t \<and> p < q)"
    using F(2) G(2) F(3,4) G(3,4) F(5) MM by (intro float_key_less_iff) simp_all
  then show ?thesis
    using F(7,8) G(3,6,7,8) MM a by (simp add: better_def)
qed

lemma rank_counts:
  assumes ord: "ordinary_round vote_df"
    and f: "f \<in> set file_df" and c: "0 < support (result_of vote_df file_df f)"
  shows "rank (result_of vote_df file_df f)
         = 1 + int (length (filter
               (\<lambda>r. 0 < support r \<and> better r (result_of vote_df file_df f))
               (count_votes vote_df file_df)))"
proof -
  let ?K = "key_of vote_df file_df"
  let ?res = "result_of vote_df file_df"
  from c obtain p where p: "support_nan vote_df f = Some p"
    by (auto simp: counted_iff [OF ord f])
  from result_with_votes [OF ord f p] obtain a where a: "?K f = Some a" by metis
  have "rank (?res f) = 1 + int (count_greater a (map ?K file_df))"
    by (simp add: result_of_def a fillna_def)
  also have "count_greater a (map ?K file_df)
      = length (filter (\<lambda>g. case ?K g of Some b \<Rightarrow> a < b | None \<Rightarrow> False) file_df)"
    by (simp add: count_greater_def filter_map comp_def)
  also have "\<dots> = length (filter (\<lambda>g. 0 < support (?res g) \<and> better (?res g) (?res f)) file_df)"
    by (intro arg_cong [where f = length] filter_cong refl key_greater_iff [OF ord f _ a])
  also have "\<dots> = length (filter (\<lambda>r. 0 < support r \<and> better r (?res f))
                       (count_votes vote_df file_df))"
    by (simp add: length_filter_count_votes)
  finally show ?thesis .
qed

lemma better_trans: "better a b \<Longrightarrow> better b c \<Longrightarrow> better a c"
  by (auto simp: better_def)

lemma better_irrefl: "\<not> better a a"
  by (simp add: better_def)

lemma better_cases: "better a b \<or> tied a b \<or> better b a"
  by (auto simp: better_def tied_def)

lemma length_filter_strict:
  assumes "\<And>x. x \<in> set xs \<Longrightarrow> P x \<Longrightarrow> Q x" and "a \<in> set xs" and "Q a" and "\<not> P a"
  shows "length (filter P xs) < length (filter Q xs)"
proof -
  have "filter P (filter Q xs) = filter P xs"
    using assms(1) by (auto simp: filter_filter intro!: filter_cong)
  moreover have "length (filter P (filter Q xs)) < length (filter Q xs)"
    using assms(2-4) by (intro length_filter_less [of a]) simp_all
  ultimately show ?thesis by simp
qed

lemma length_filter_disjoint:
  assumes "\<And>x. x \<in> set xs \<Longrightarrow> \<not> (P x \<and> Q x)"
  shows "length (filter (\<lambda>x. P x \<or> Q x) xs) = length (filter P xs) + length (filter Q xs)"
  using assms by (induction xs) auto

lemma rank_of_row:
  assumes "ordinary_round vote_df"
    and "a \<in> set (count_votes vote_df file_df)" and "0 < support a"
  shows "rank a = 1 + int (length (filter (\<lambda>r. 0 < support r \<and> better r a)
                                    (count_votes vote_df file_df)))"
proof -
  from assms(2) obtain f where "f \<in> set file_df" "a = result_of vote_df file_df f"
    by (auto simp: set_count_votes)
  with assms(3) rank_counts [OF assms(1), of f file_df] show ?thesis by simp
qed

lemma rank_without_votes:
  assumes "ordinary_round vote_df"
    and "c \<in> set (count_votes vote_df file_df)" and "support c = 0"
  shows "rank c = 0 \<and> score c = 0"
proof -
  from assms(2) obtain f where f: "f \<in> set file_df" "c = result_of vote_df file_df f"
    by (auto simp: set_count_votes)
  with assms(3) counted_iff [OF assms(1) f(1)] have "support_nan vote_df f = None"
    by simp
  then show ?thesis unfolding f(2) by (simp add: result_without_votes)
qed

lemma better_rank_less:
  assumes ord: "ordinary_round vote_df"
    and a: "a \<in> set (count_votes vote_df file_df)" and b: "b \<in> set (count_votes vote_df file_df)"
    and ca: "0 < support a" and cb: "0 < support b" and ab: "better a b"
  shows "rank a < rank b"
proof -
  let ?out = "count_votes vote_df file_df"
  have "length (filter (\<lambda>r. 0 < support r \<and> better r a) ?out)
        < length (filter (\<lambda>r. 0 < support r \<and> better r b) ?out)"
  proof (rule length_filter_strict [of _ _ _ a])
    fix x assume "0 < support x \<and> better x a"
    with ab show "0 < support x \<and> better x b" by (auto intro: better_trans)
  next
    show "a \<in> set ?out" by (rule a)
    show "0 < support a \<and> better a b" using ca ab by simp
    show "\<not> (0 < support a \<and> better a a)" by (simp add: better_irrefl)
  qed
  then show ?thesis unfolding rank_of_row [OF ord a ca] rank_of_row [OF ord b cb] by simp
qed

lemma parse_line_bound:
  assumes "all_bound st"
  shows "\<exists>st'. parse_line raw st = Inr st' \<and> all_bound st'"
proof -
  from assms obtain n f t c where
    "cur_num st = Some n" "cur_fname st = Some f" "cur_title st = Some t" "cur_creator st = Some c"
    by (auto simp: all_bound_def)
  then show ?thesis
    by (simp add: parse_line_def Let_def all_bound_def split: list.splits)
qed

lemma parse_line_header:
  assumes "startswith (strip raw) ''===''"
  shows "\<exists>st'. parse_line raw st = Inr st' \<and> all_bound st'"
  using assms by (simp add: parse_line_def Let_def all_bound_def split: list.splits)

lemma scan_bound:
  "all_bound st \<Longrightarrow> \<exists>st'. scan ls st = Inr st'"
proof (induction ls arbitrary: st)
  case Nil
  then show ?case by simp
next
  case (Cons l ls)
  from parse_line_bound [OF Cons.prems, of l] obtain st1
    where "parse_line l st = Inr st1" "all_bound st1" by auto
  with Cons.IH [of st1] show ?case by simp
qed

lemma parse_after_header_total:
  assumes "splitlines wiki_text = l # ls" and "startswith (strip l) ''===''"
  shows "\<exists>file_df vote_df. parse_voting_page wiki_text = Inr (file_df, vote_df)"
proof -
  let ?init = "\<lparr>cur_num = None, cur_fname = None, cur_title = None, cur_creator = None,
              out_files = [], out_votes = []\<rparr>"
  from parse_line_header [OF assms(2), of ?init] obtain st1
    where "parse_line l ?init = Inr st1" "all_bound st1" by auto
  moreover from scan_bound [OF this(2), of ls] obtain st2 where "scan ls st1 = Inr st2" by auto
  ultimately show ?thesis by (simp add: parse_voting_page_def assms(1))
qed

section \<open>The examples, evaluated\<close>

lemmas validate_votes_defs =
  validate_votes_def before_multiple_awards_def merge_left_def amnesty_def
  mark_duplicates_def mark_unsigned_def mark_self_votes_def mark_multiple_awards_def
  loc_set_error_def duplicated_def duplicated_keep_false_def boolean_index_def
  mask_and_def nan_gt_def with_error_def

lemma scenario_validated:
  "validate_votes scenario_votes scenario_voters =
     [with_error bob_vote (Some 0), with_error bob_vote (Some 5),
      with_error alice_vote (Some 7)]"
  by (simp add: validate_votes_defs scenario_votes_def scenario_voters_def
      bob_vote_def alice_vote_def eligible_def)

lemma unsigned_validated:
  "validate_votes [unsigned_vote] [] = [with_error unsigned_vote (Some 7)]"
  by (simp add: validate_votes_defs unsigned_vote_def)


lemma carol_before:
  "before_multiple_awards carol_votes [eligible ''Carol''] =
     [with_error (carol_vote ''1'') (Some 0), with_error (carol_vote ''2'') (Some 0)]"
  by (simp add: validate_votes_defs carol_votes_def carol_vote_def eligible_def)

lemma newbie_classified:
  "validate_voters (\<lambda>name. newbie pages) [newbie_vote] (30 * day) =
     Inr [if list_ex direct_submission pages
          then \<lparr>v_voter = ''Newbie'', v_error = 0, v_note = 4, v_edit_count = 10,
                v_reg_date = Some (25 * day)\<rparr>
          else \<lparr>v_voter = ''Newbie'', v_error = 4, v_note = 0, v_edit_count = 10,
                v_reg_date = Some (25 * day)\<rparr>]"
  by (simp add: validate_voters_def validate_voter_def unique_def newbie_vote_def newbie_def
      is_ip_address_def loc_set_def Let_def day_def)

lemma bark_page_direct:
  "direct_submission bark_page" "\<not> direct_submission (bark_page @ ''/Voting'')"
  by (simp_all add: direct_submission_def startswith_def bark_page_def)

lemma tie_counted:
  "count_votes tie_votes tie_files =
     [\<lparr>f_num = ''1'', file_name = ''Photo 1.jpg'', title = ''Photo 1'', f_creator = ''Alice'',
       score = 5, support = 2,
       score2 = Some (6380099472108203 / 1125899906842624), rank = 1\<rparr>,
      \<lparr>f_num = ''2'', file_name = ''Photo 2.jpg'', title = ''Photo 2'', f_creator = ''Alice'',
       score = 5, support = 2,
       score2 = Some (6380099472108203 / 1125899906842624), rank = 1\<rparr>,
      \<lparr>f_num = ''3'', file_name = ''Photo 3.jpg'', title = ''Photo 3'', f_creator = ''Alice'',
       score = 1, support = 1,
       score2 = Some (6004799503160661 / 4503599627370496), rank = 3\<rparr>]"
  by code_simp

lemma lonely_counted:
  "count_votes lonely_votes lonely_files =
     [\<lparr>f_num = ''1'', file_name = ''Photo 1.jpg'', title = ''Photo 1'', f_creator = ''Alice'',
       score = 3, support = 1, score2 = Some (7 / 2), rank = 1\<rparr>,
      \<lparr>f_num = ''2'', file_name = ''Photo 2.jpg'', title = ''Photo 2'', f_creator = ''Zoe'',
       score = 0, support = 0, score2 = None, rank = 0\<rparr>]"
  by code_simp

text \<open>
  Outside the ordinary range the rounding shows: with the scores \<open>2 ^ 53\<close> the two
  values of score2 are the same float, so the entries share rank 1 although entry 2 has
  the higher support; and a sum beyond \<open>2 ^ 63\<close> wraps around.
\<close>

lemma large_scores_tie:
  "count_votes large_votes large_files =
     [\<lparr>f_num = ''1'', file_name = ''Photo 1.jpg'', title = ''Photo 1'', f_creator = ''Alice'',
       score = 2 ^ 53, support = 1, score2 = Some (2 ^ 53), rank = 1\<rparr>,
      \<lparr>f_num = ''2'', file_name = ''Photo 2.jpg'', title = ''Photo 2'', f_creator = ''Alice'',
       score = 2 ^ 53, support = 2, score2 = Some (2 ^ 53), rank = 1\<rparr>]"
  by code_simp

lemma large_sum_wraps:
  "groupby_sum [placed ''1'' (2 ^ 62) ''Bob'', placed ''1'' (2 ^ 62) ''Carol'']
   = [(''1'', - (2 ^ 63))]"
  by code_simp

lemma tie_votes_ordinary: "ordinary_round tie_votes"
  by (simp add: ordinary_round_def tie_votes_def placed_def)

lemma lonely_votes_ordinary: "ordinary_round lonely_votes"
  by (simp add: ordinary_round_def lonely_votes_def placed_def)

lemma scenario_counted:
  "count_votes (validate_votes scenario_votes scenario_voters) [entry ''1'' ''Alice''] =
     [\<lparr>f_num = ''1'', file_name = ''Photo 1.jpg'', title = ''Photo 1'', f_creator = ''Alice'',
       score = 7, support = 3, score2 = Some (31 / 4), rank = 1\<rparr>]"
  by code_simp

lemma sample_page_parsed:
  "parse_voting_page sample_page =
     Inr ([\<lparr>f_num = ''1'', file_name = ''Oak.jpg'', title = ''Oak bark'',
            f_creator = ''Alice''\<rparr>],
          [\<lparr>num = ''1'', award = 3, voter = ''Bob'', creator = ''Alice'', line = vote_line\<rparr>,
           \<lparr>num = ''1'', award = 1, voter = ''10.0.0.1'', creator = ''Alice'',
             line = ''*{{1/3*}} -- [[Special:Contributions/10.0.0.1|10.0.0.1]]''\<rparr>,
           \<lparr>num = ''1'', award = 0, voter = [], creator = ''Alice'',
             line = ''*{{0/3*}} nice''\<rparr>])"
  by code_simp

section \<open>The claims\<close>

text \<open>
  C9. Self-vote invariant: a vote whose voter is the creator of the entry it is cast on,
  both names non-empty, has the final error code 7 (vote for one's own picture) when
  \<^verbatim>\<open>validate_votes\<close> returns: no earlier code survives the self-vote statement, and
  the last statement (the same award given twice) leaves it alone. Every row of the result
  carries the columns of the vote it was merged from.
\<close>

theorem self_vote_invariant:
  assumes "r \<in> set (validate_votes vote_df voter_df)"
    and "voter r = creator r" and "voter r \<noteq> []" and "creator r \<noteq> []"
  shows "error r = Some 7"
  using assms(1,2) by (rule self_vote_rows_final)

theorem self_vote_invariant_witness:
  "with_error alice_vote (Some 7) \<in> set (validate_votes scenario_votes scenario_voters)
   \<and> voter (with_error alice_vote (Some 7)) = creator (with_error alice_vote (Some 7))
   \<and> voter (with_error alice_vote (Some 7)) \<noteq> []
   \<and> error (with_error alice_vote (Some 7)) = Some 7"
proof -
  let ?r = "with_error alice_vote (Some 7)"
  have mem: "?r \<in> set (validate_votes scenario_votes scenario_voters)"
    by (simp add: scenario_validated)
  have eq: "voter ?r = creator ?r" and ne: "voter ?r \<noteq> []" "creator ?r \<noteq> []"
    by (simp_all add: with_error_def alice_vote_def)
  from self_vote_invariant [OF mem eq ne] mem eq ne show ?thesis by simp
qed

text \<open>
  C10. A vote with an empty voter cast on an entry with an empty creator ends with the
  error code 7 (vote for one's own picture), not 6 (unsigned vote): the statement that
  marks self-votes compares the two empty strings, finds them equal, and overwrites the
  6 that the statement before it had assigned.
\<close>

theorem unsigned_vote_empty_creator:
  assumes "r \<in> set (validate_votes vote_df voter_df)"
    and "voter r = []" and "creator r = []"
  shows "error r = Some 7 \<and> error r \<noteq> Some 6"
proof -
  from assms(2,3) have "voter r = creator r" by simp
  with assms(1) have "error r = Some 7" by (rule self_vote_rows_final)
  then show ?thesis by simp
qed

theorem unsigned_vote_empty_creator_witness:
  "with_error unsigned_vote (Some 7) \<in> set (validate_votes [unsigned_vote] [])
   \<and> voter (with_error unsigned_vote (Some 7)) = []
   \<and> creator (with_error unsigned_vote (Some 7)) = []
   \<and> error (with_error unsigned_vote (Some 7)) = Some 7
   \<and> error (with_error unsigned_vote (Some 7)) \<noteq> Some 6"
proof -
  let ?r = "with_error unsigned_vote (Some 7)"
  have mem: "?r \<in> set (validate_votes [unsigned_vote] [])"
    by (simp add: unsigned_validated)
  have v: "voter ?r = []" and c: "creator ?r = []"
    by (simp_all add: with_error_def unsigned_vote_def)
  from unsigned_vote_empty_creator [OF mem v c] mem v c show ?thesis by simp
qed



text \<open>
  C7. The statement that marks multiple placements is the last one of
  \<^verbatim>\<open>validate_votes\<close>. On the frame \<open>df\<close> that the earlier statements leave, a row is
  marked with 8 exactly when its award is positive, its error is 0 and another row of
  \<open>df\<close> with error 0 has the same award and voter: every member of a group of two or
  more gets the code, the first one too. Every other row is returned as it was; in
  particular a row whose error is not 0 is never written.
\<close>

theorem multiple_placement_last:
  assumes "df = before_multiple_awards vote_df voter_df"
    and "res = validate_votes vote_df voter_df"
    and "i < length df"
    and "grouped \<longleftrightarrow> (\<exists>j < length df. j \<noteq> i \<and> award (df ! j) = award (df ! i)
             \<and> voter (df ! j) = voter (df ! i) \<and> error (df ! j) = Some 0)"
  shows "res = mark_multiple_awards df \<and> length res = length df
    \<and> (0 < award (df ! i) \<and> error (df ! i) = Some 0 \<and> grouped
          \<longrightarrow> res ! i = (df ! i)\<lparr>error := Some 8\<rparr>)
    \<and> (\<not> (0 < award (df ! i) \<and> error (df ! i) = Some 0 \<and> grouped) \<longrightarrow> res ! i = df ! i)
    \<and> (error (df ! i) \<noteq> Some 0 \<longrightarrow> res ! i = df ! i)"
proof -
  have res: "res = mark_multiple_awards df"
    using assms(1,2) by (simp add: validate_votes_def)
  have nth: "res ! i = (if in_multi_group df (df ! i) then (df ! i)\<lparr>error := Some 8\<rparr> else df ! i)"
    using assms(3) unfolding res mark_multiple_awards_map by simp
  have len: "length res = length df"
    unfolding res mark_multiple_awards_map by simp
  from in_multi_group_nth [OF assms(3)] assms(4)
  have grp: "in_multi_group df (df ! i) \<longleftrightarrow> 0 < award (df ! i) \<and> error (df ! i) = Some 0 \<and> grouped"
    by simp
  show ?thesis using res len nth grp by auto
qed

theorem multiple_placement_last_witness:
  "error (before_multiple_awards carol_votes [eligible ''Carol''] ! 0) = Some 0
   \<and> error (before_multiple_awards carol_votes [eligible ''Carol''] ! 1) = Some 0
   \<and> validate_votes carol_votes [eligible ''Carol''] ! 0
       = with_error (carol_vote ''1'') (Some 8)"
proof -
  let ?df = "before_multiple_awards carol_votes [eligible ''Carol'']"
  have i: "0 < length ?df" by (simp add: carol_before)
  have g: "True \<longleftrightarrow> (\<exists>j < length ?df. j \<noteq> 0 \<and> award (?df ! j) = award (?df ! 0)
             \<and> voter (?df ! j) = voter (?df ! 0) \<and> error (?df ! j) = Some 0)"
    unfolding carol_before
    by (auto intro!: exI [of _ "Suc 0"] simp: with_error_def carol_vote_def)
  have pre: "0 < award (?df ! 0) \<and> error (?df ! 0) = Some 0 \<and> True"
    by (simp add: carol_before with_error_def carol_vote_def)
  from multiple_placement_last [OF refl refl i g] pre
  have "validate_votes carol_votes [eligible ''Carol''] ! 0 = (?df ! 0)\<lparr>error := Some 8\<rparr>"
    by blast
  then show ?thesis by (simp add: carol_before with_error_def)
qed

text \<open>
  C8. Duplicate invariant. Let votes \<open>i < j\<close> have the same entry number and voter, vote
  \<open>i\<close> being the first with that pair in document order (\<^verbatim>\<open>voter_df\<close> has one row per
  voter name, so the rows of the result are the votes, in order). The duplicate statement
  writes 5 on vote \<open>j\<close> and leaves vote \<open>i\<close> as the amnesty statement left it. In the
  final frame vote \<open>j\<close> carries 5, or 6 or 7 when it is also unsigned or a self-vote,
  never 0; and vote \<open>i\<close> carries 0 exactly when no other disqualification applies to it:
  its error after the amnesty statement is 0, it is signed, it is not a self-vote and the
  last statement does not find it in a group of multiple placements.
\<close>

theorem duplicate_invariant:
  assumes dist: "distinct (map v_voter voter_df)"
    and j: "j < length vote_df" and ij: "i < j"
    and same: "num (vote_df ! i) = num (vote_df ! j)" "voter (vote_df ! i) = voter (vote_df ! j)"
    and first: "\<forall>k < i. \<not> (num (vote_df ! k) = num (vote_df ! i)
                        \<and> voter (vote_df ! k) = voter (vote_df ! i))"
    and df1: "df1 = amnesty (merge_left vote_df voter_df)"
    and df4: "df4 = before_multiple_awards vote_df voter_df"
    and res: "res = validate_votes vote_df voter_df"
  shows "map vote_of res = vote_df
    \<and> error (mark_duplicates df1 ! j) = Some 5
    \<and> mark_duplicates df1 ! i = df1 ! i
    \<and> error (res ! j) \<in> {Some 5, Some 6, Some 7}
    \<and> (voter (vote_df ! j) \<noteq> [] \<and> voter (vote_df ! j) \<noteq> creator (vote_df ! j)
          \<longrightarrow> error (res ! j) = Some 5)
    \<and> (error (res ! i) = Some 0 \<longleftrightarrow>
          error (df1 ! i) = Some 0 \<and> voter (vote_df ! i) \<noteq> []
          \<and> voter (vote_df ! i) \<noteq> creator (vote_df ! i) \<and> \<not> in_multi_group df4 (df4 ! i))"
proof -
  let ?df2 = "mark_duplicates df1"
  let ?df3 = "mark_unsigned ?df2"
  have i: "i < length vote_df" using ij j by simp
  have len1: "length df1 = length vote_df"
    and v1: "\<And>k. k < length vote_df \<Longrightarrow> vote_of (df1 ! k) = vote_df ! k"
    unfolding df1 by (simp_all add: amnesty_merge_votes [OF dist])
  have f1: "num (df1 ! k) = num (vote_df ! k)" "voter (df1 ! k) = voter (vote_df ! k)"
      "creator (df1 ! k) = creator (vote_df ! k)"
    if "k < length vote_df" for k
    using v1 [OF that] vote_of_fields [of "df1 ! k"] by simp_all
  have d4: "df4 = mark_self_votes ?df3"
    unfolding df4 df1 before_multiple_awards_def ..
  have r: "res = mark_multiple_awards df4"
    unfolding res df4 validate_votes_def ..
  have len4: "length df4 = length vote_df"
    unfolding d4 by (simp add: length_passes len1)
  \<comment> \<open>the duplicate statement\<close>
  have dup_j: "\<exists>k < j. num (df1 ! k) = num (df1 ! j) \<and> voter (df1 ! k) = voter (df1 ! j)"
    using ij i j same by (auto simp: f1 intro!: exI [of _ i])
  have nodup_i: "\<not> (\<exists>k < i. num (df1 ! k) = num (df1 ! i) \<and> voter (df1 ! k) = voter (df1 ! i))"
    using first i by (auto simp: f1)
  have two_j: "?df2 ! j = (df1 ! j)\<lparr>error := Some 5\<rparr>"
    using j by (simp add: nth_mark_duplicates len1 dup_j)
  have two_i: "?df2 ! i = df1 ! i"
    using i by (simp add: nth_mark_duplicates len1 nodup_i)
  \<comment> \<open>the unsigned and the self-vote statements\<close>
  have four_j: "df4 ! j =
      (if voter (vote_df ! j) = creator (vote_df ! j) then (df1 ! j)\<lparr>error := Some 7\<rparr>
       else if voter (vote_df ! j) = [] then (df1 ! j)\<lparr>error := Some 6\<rparr>
       else (df1 ! j)\<lparr>error := Some 5\<rparr>)"
    unfolding d4 using j
    by (simp add: nth_mark_self_votes nth_mark_unsigned length_passes len1 two_j f1)
  have four_i: "df4 ! i =
      (if voter (vote_df ! i) = creator (vote_df ! i) then (df1 ! i)\<lparr>error := Some 7\<rparr>
       else if voter (vote_df ! i) = [] then (df1 ! i)\<lparr>error := Some 6\<rparr>
       else df1 ! i)"
    unfolding d4 using i
    by (simp add: nth_mark_self_votes nth_mark_unsigned length_passes len1 two_i f1)
  \<comment> \<open>the last statement\<close>
  have "error (df4 ! j) \<noteq> Some 0" by (simp add: four_j)
  then have "\<not> in_multi_group df4 (df4 ! j)" by (simp add: in_multi_group_def)
  then have res_j: "res ! j = df4 ! j"
    unfolding r using j by (simp add: nth_mark_multiple_awards len4)
  have res_i: "res ! i = (if in_multi_group df4 (df4 ! i) then (df4 ! i)\<lparr>error := Some 8\<rparr>
                          else df4 ! i)"
    unfolding r using i by (simp add: nth_mark_multiple_awards len4)
  have votes: "map vote_of res = vote_df"
    unfolding res by (rule validate_votes_votes [OF dist])
  have c2: "error (?df2 ! j) = Some 5" by (simp add: two_j)
  have c4: "error (res ! j) \<in> {Some 5, Some 6, Some 7}" by (simp add: res_j four_j)
  have c5: "voter (vote_df ! j) \<noteq> [] \<and> voter (vote_df ! j) \<noteq> creator (vote_df ! j)
          \<longrightarrow> error (res ! j) = Some 5" by (simp add: res_j four_j)
  have c6: "error (res ! i) = Some 0 \<longleftrightarrow>
          error (df1 ! i) = Some 0 \<and> voter (vote_df ! i) \<noteq> []
          \<and> voter (vote_df ! i) \<noteq> creator (vote_df ! i) \<and> \<not> in_multi_group df4 (df4 ! i)"
    by (simp add: res_i four_i)
  from votes c2 two_i c4 c5 c6 show ?thesis by blast
qed

theorem duplicate_invariant_witness:
  "num (scenario_votes ! 0) = num (scenario_votes ! 1)
   \<and> voter (scenario_votes ! 0) = voter (scenario_votes ! 1)
   \<and> error (validate_votes scenario_votes scenario_voters ! 1) = Some 5
   \<and> error (validate_votes scenario_votes scenario_voters ! 0) = Some 0"
proof -
  have dist: "distinct (map v_voter scenario_voters)"
    by (simp add: scenario_voters_def eligible_def)
  have j: "1 < length scenario_votes" and ij: "(0::nat) < 1"
    and same: "num (scenario_votes ! 0) = num (scenario_votes ! 1)"
      "voter (scenario_votes ! 0) = voter (scenario_votes ! 1)"
    and first: "\<forall>k < 0. \<not> (num (scenario_votes ! k) = num (scenario_votes ! 0)
                        \<and> voter (scenario_votes ! k) = voter (scenario_votes ! 0))"
    and signed: "voter (scenario_votes ! 1) \<noteq> []
                 \<and> voter (scenario_votes ! 1) \<noteq> creator (scenario_votes ! 1)"
    by (simp_all add: scenario_votes_def bob_vote_def)
  from duplicate_invariant [OF dist j ij same first refl refl refl] signed
  have "error (validate_votes scenario_votes scenario_voters ! 1) = Some 5" by blast
  moreover have "error (validate_votes scenario_votes scenario_voters ! 0) = Some 0"
    by (simp add: scenario_validated with_error_def)
  ultimately show ?thesis using same by simp
qed

text \<open>
  C5. Rule 3 of the voter classifier. Let a voter of the returned \<^verbatim>\<open>voter_df\<close> be
  registered, not an IP address, active for fewer than 10 days before the start date and
  with fewer than 50 edits. When none of the voter's contributions is a direct
  challenge page (a title that starts with \<^verbatim>\<open>Commons:Photo challenge/\<close> and has exactly
  one \<^verbatim>\<open>/\<close>), the final error is 4 (too few edits): the check of the edit count comes
  last and overwrites the 3 (new account). When one is, both codes go to the column
  \<^verbatim>\<open>note\<close>, which ends as 4, and the error stays 0.
\<close>

theorem new_account_low_edits:
  assumes "validate_voters site vote_df start_date = Inr voter_df"
    and "row \<in> set voter_df" and "u = site (v_voter row)"
    and "\<not> is_ip_address (v_voter row)" and "isRegistered u"
    and "registration u = Some reg_date"
    and "(start_date - reg_date) div 86400 < 10" and "editCount u < 50"
  shows "(\<not> list_ex direct_submission (contributions u) \<longrightarrow> v_error row = 4)
       \<and> (list_ex direct_submission (contributions u) \<longrightarrow> v_error row = 0 \<and> v_note row = 4)"
proof -
  let ?found = "list_ex direct_submission (contributions u)"
  from validate_voters_rows [OF assms(1,2)] assms(3)
  have "validate_voter start_date (v_voter row) u = Inr row" by simp
  with validate_voter_rule3 [OF assms(4-8)]
  have row: "row = \<lparr>v_voter = v_voter row, v_error = (if ?found then 0 else 4),
          v_note = (if ?found then 4 else if is_blocked u then 1 else 0),
          v_edit_count = editCount u, v_reg_date = Some reg_date\<rparr>"
    by simp
  have "v_error row = (if ?found then 0 else 4)" by (subst row) simp
  moreover have "?found \<longrightarrow> v_note row = 4" by (subst row) simp
  ultimately show ?thesis by simp
qed

theorem new_account_low_edits_witness:
  "v_error (\<lparr>v_voter = ''Newbie'', v_error = 4, v_note = 0, v_edit_count = 10,
              v_reg_date = Some (25 * day)\<rparr>) = 4
   \<and> validate_voters (\<lambda>name. newbie [bark_page @ ''/Voting'']) [newbie_vote] (30 * day)
       = Inr [\<lparr>v_voter = ''Newbie'', v_error = 4, v_note = 0, v_edit_count = 10,
                v_reg_date = Some (25 * day)\<rparr>]
   \<and> validate_voters (\<lambda>name. newbie [bark_page]) [newbie_vote] (30 * day)
       = Inr [\<lparr>v_voter = ''Newbie'', v_error = 0, v_note = 4, v_edit_count = 10,
                v_reg_date = Some (25 * day)\<rparr>]"
proof -
  let ?row = "\<lparr>v_voter = ''Newbie'', v_error = 4, v_note = 0, v_edit_count = 10,
               v_reg_date = Some (25 * day)\<rparr>"
  let ?site = "\<lambda>name::string. newbie [bark_page @ ''/Voting'']"
  have run: "validate_voters ?site [newbie_vote] (30 * day) = Inr [?row]"
    by (simp add: newbie_classified bark_page_direct)
  have run': "validate_voters (\<lambda>name. newbie [bark_page]) [newbie_vote] (30 * day)
       = Inr [\<lparr>v_voter = ''Newbie'', v_error = 0, v_note = 4, v_edit_count = 10,
                v_reg_date = Some (25 * day)\<rparr>]"
    by (simp add: newbie_classified bark_page_direct)
  have mem: "?row \<in> set [?row]" by simp
  have ip: "\<not> is_ip_address (v_voter ?row)" by (simp add: is_ip_address_def)
  have reg: "isRegistered (?site (v_voter ?row))"
    and date: "registration (?site (v_voter ?row)) = Some (25 * day)"
    and days: "(30 * day - 25 * day) div 86400 < 10"
    and edits: "editCount (?site (v_voter ?row)) < 50"
    and none: "\<not> list_ex direct_submission (contributions (?site (v_voter ?row)))"
    by (simp_all add: newbie_def bark_page_direct day_def)
  from new_account_low_edits [OF run mem refl ip reg date days edits] none
  have "v_error ?row = 4" by blast
  with run run' show ?thesis by simp
qed

text \<open>
  C1. The scenario of the specification, run through \<^verbatim>\<open>validate_votes\<close> and
  \<^verbatim>\<open>count_votes\<close>: the second vote of Bob is marked 5 and the vote of Alice 7, as
  expected, but \<^verbatim>\<open>count_votes\<close> keeps every vote whose error is \<^verbatim>\<open>>= 0\<close>, so the two
  rejected votes are counted as well and the entry ends with score 7 and support 3 where
  score 3 and support 1 are expected.
\<close>

theorem rejected_votes_are_counted:
  "validate_votes scenario_votes scenario_voters =
     [with_error bob_vote (Some 0), with_error bob_vote (Some 5),
      with_error alice_vote (Some 7)]
   \<and> score (count_votes (validate_votes scenario_votes scenario_voters)
               [entry ''1'' ''Alice''] ! 0) = 7
   \<and> support (count_votes (validate_votes scenario_votes scenario_voters)
               [entry ''1'' ''Alice''] ! 0) = 3"
proof -
  have "score (count_votes (validate_votes scenario_votes scenario_voters)
               [entry ''1'' ''Alice''] ! 0) = 7
   \<and> support (count_votes (validate_votes scenario_votes scenario_voters)
               [entry ''1'' ''Alice''] ! 0) = 3"
    by (simp add: scenario_counted)
  with scenario_validated show ?thesis by (rule conjI)
qed

text \<open>
  C2, as amended. In a round of ordinary size (awards of one digit, fewer than
  \<open>2 ^ 20\<close> votes), among the entries with a counted vote, entries with equal score and
  equal support have the same rank, and the entry \<open>b\<close> that comes next below \<open>a\<close> (no
  entry lies strictly between them) has the rank of \<open>a\<close> plus the number of entries tied
  with \<open>a\<close>: \<^verbatim>\<open>rank(method="min")\<close> is the competition ranking 1, 1, 3, not the dense
  ranking 1, 1, 2.
\<close>

theorem tied_share_rank:
  assumes ord: "ordinary_round vote_df"
    and a: "a \<in> set (count_votes vote_df file_df)" and b: "b \<in> set (count_votes vote_df file_df)"
    and ca: "0 < support a" and cb: "0 < support b"
  shows "(score a = score b \<and> support a = support b \<longrightarrow> rank a = rank b)
    \<and> (better a b
        \<and> \<not> list_ex (\<lambda>c. 0 < support c \<and> better a c \<and> better c b) (count_votes vote_df file_df)
       \<longrightarrow> rank b = rank a + int (length (filter (\<lambda>c. score c = score a \<and> support c = support a)
                                     (count_votes vote_df file_df))))"
proof (intro conjI impI)
  let ?out = "count_votes vote_df file_df"
  {
    assume "score a = score b \<and> support a = support b"
    then have "(\<lambda>r. 0 < support r \<and> better r a) = (\<lambda>r. 0 < support r \<and> better r b)"
      by (auto simp: better_def fun_eq_iff)
    then show "rank a = rank b"
      unfolding rank_of_row [OF ord a ca] rank_of_row [OF ord b cb] by simp
  }
  {
    assume next_below: "better a b
        \<and> \<not> list_ex (\<lambda>c. 0 < support c \<and> better a c \<and> better c b) ?out"
    then have ab: "better a b"
      and none: "\<And>c. c \<in> set ?out \<Longrightarrow> 0 < support c \<Longrightarrow> \<not> (better a c \<and> better c b)"
      by (auto simp: list_ex_iff)
    let ?above = "\<lambda>r. 0 < support r \<and> better r a"
    let ?level = "\<lambda>c. score c = score a \<and> support c = support a"
    have split: "(0 < support r \<and> better r b) \<longleftrightarrow> (?above r \<or> ?level r)"
      if "r \<in> set ?out" for r
    proof
      assume rb: "0 < support r \<and> better r b"
      with none [OF that] have "\<not> better a r" by simp
      with better_cases [of r a] rb show "?above r \<or> ?level r"
        by (auto simp: tied_def)
    next
      assume "?above r \<or> ?level r"
      then show "0 < support r \<and> better r b"
        using ab ca by (auto simp: better_def)
    qed
    have "length (filter (\<lambda>r. 0 < support r \<and> better r b) ?out)
          = length (filter (\<lambda>r. ?above r \<or> ?level r) ?out)"
      by (intro arg_cong [where f = length] filter_cong refl split)
    also have "\<dots> = length (filter ?above ?out) + length (filter ?level ?out)"
      by (rule length_filter_disjoint) (auto simp: better_def)
    finally show "rank b = rank a + int (length (filter ?level ?out))"
      unfolding rank_of_row [OF ord a ca] rank_of_row [OF ord b cb] by simp
  }
qed

theorem tied_share_rank_witness:
  "better ((count_votes tie_votes tie_files) ! 0) ((count_votes tie_votes tie_files) ! 2)
   \<and> rank ((count_votes tie_votes tie_files) ! 0) = rank ((count_votes tie_votes tie_files) ! 1)
   \<and> rank ((count_votes tie_votes tie_files) ! 2) = rank ((count_votes tie_votes tie_files) ! 0) + 2"
proof -
  let ?out = "(count_votes tie_votes tie_files)"
  have a: "?out ! 0 \<in> set ?out" and a': "?out ! 1 \<in> set ?out" and b: "?out ! 2 \<in> set ?out"
    and ca: "0 < support (?out ! 0)" and ca': "0 < support (?out ! 1)"
    and cb: "0 < support (?out ! 2)"
    by (simp_all add: tie_counted)
  have same: "score (?out ! 0) = score (?out ! 1) \<and> support (?out ! 0) = support (?out ! 1)"
    by (simp add: tie_counted)
  have below: "better (?out ! 0) (?out ! 2)
      \<and> \<not> list_ex (\<lambda>c. 0 < support c \<and> better (?out ! 0) c \<and> better c (?out ! 2)) ?out"
    by (simp add: tie_counted better_def)
  have two: "length (filter (\<lambda>c. score c = score (?out ! 0) \<and> support c = support (?out ! 0))
               ?out) = 2"
    by (simp add: tie_counted)
  from tied_share_rank [OF tie_votes_ordinary a a' ca ca'] same have "rank (?out ! 0) = rank (?out ! 1)"
    by blast
  moreover from tied_share_rank [OF tie_votes_ordinary a b ca cb] below two
  have "rank (?out ! 2) = rank (?out ! 0) + 2" by simp
  ultimately show ?thesis using below by simp
qed

text \<open>
  C2 as stated fails: entries 1 and 2 tie with score 5 and support 2 and share rank 1;
  entry 3, the next below them, has rank 3 and not 2.
\<close>

theorem dense_rank_counterexample:
  "score ((count_votes tie_votes tie_files) ! 0) = 5 \<and> support ((count_votes tie_votes tie_files) ! 0) = 2 \<and> rank ((count_votes tie_votes tie_files) ! 0) = 1
   \<and> score ((count_votes tie_votes tie_files) ! 1) = 5 \<and> support ((count_votes tie_votes tie_files) ! 1) = 2 \<and> rank ((count_votes tie_votes tie_files) ! 1) = 1
   \<and> score ((count_votes tie_votes tie_files) ! 2) = 1 \<and> support ((count_votes tie_votes tie_files) ! 2) = 1 \<and> rank ((count_votes tie_votes tie_files) ! 2) = 3
   \<and> rank ((count_votes tie_votes tie_files) ! 2) \<noteq> rank ((count_votes tie_votes tie_files) ! 0) + 1"
  by (simp add: tie_counted)

text \<open>
  C3, as amended. In a round of ordinary size (awards of one digit, fewer than
  \<open>2 ^ 20\<close> votes), for entries \<open>a\<close> and \<open>b\<close> that each have a counted vote: a higher score
  of \<open>a\<close> gives \<open>rank a \<le> rank b\<close>, and an equal score with a higher support gives
  \<open>rank a < rank b\<close>; their ranks start at 1. An entry with no counted vote has score 0,
  support 0 and rank 0 (\<^verbatim>\<open>fillna(0)\<close>), below every rank of an entry with votes.
\<close>

theorem rank_monotone_counted:
  assumes "ordinary_round vote_df"
    and "a \<in> set (count_votes vote_df file_df)" and "b \<in> set (count_votes vote_df file_df)"
    and "c \<in> set (count_votes vote_df file_df)"
    and "0 < support a" and "0 < support b"
  shows "(score b < score a \<longrightarrow> rank a \<le> rank b)
       \<and> (score a = score b \<and> support b < support a \<longrightarrow> rank a < rank b)
       \<and> 1 \<le> rank a
       \<and> (support c = 0 \<longrightarrow> score c = 0 \<and> rank c = 0)"
proof -
  have "better a b \<longrightarrow> rank a < rank b"
    using better_rank_less [OF assms(1,2,3,5,6)] by simp
  moreover have "1 \<le> rank a" by (simp add: rank_of_row [OF assms(1,2,5)])
  moreover have "support c = 0 \<longrightarrow> score c = 0 \<and> rank c = 0"
    using rank_without_votes [OF assms(1,4)] by simp
  ultimately show ?thesis by (auto simp: better_def)
qed

theorem rank_monotone_counted_witness:
  "score ((count_votes tie_votes tie_files) ! 2) < score ((count_votes tie_votes tie_files) ! 0) \<and> rank ((count_votes tie_votes tie_files) ! 0) \<le> rank ((count_votes tie_votes tie_files) ! 2)
   \<and> support ((count_votes lonely_votes lonely_files) ! 1) = 0 \<and> rank ((count_votes lonely_votes lonely_files) ! 1) = 0"
proof -
  let ?out = "(count_votes tie_votes tie_files)"
  let ?lon = "(count_votes lonely_votes lonely_files)"
  have a: "?out ! 0 \<in> set ?out" and b: "?out ! 2 \<in> set ?out"
    and ca: "0 < support (?out ! 0)" and cb: "0 < support (?out ! 2)"
    and less: "score (?out ! 2) < score (?out ! 0)"
    by (simp_all add: tie_counted)
  have a': "?lon ! 0 \<in> set ?lon" and c': "?lon ! 1 \<in> set ?lon"
    and ca': "0 < support (?lon ! 0)" and zero: "support (?lon ! 1) = 0"
    by (simp_all add: lonely_counted)
  from rank_monotone_counted [OF tie_votes_ordinary a b a ca cb] less
  have "rank (?out ! 0) \<le> rank (?out ! 2)" by blast
  moreover from rank_monotone_counted [OF lonely_votes_ordinary a' a' c' ca' ca'] zero
  have "rank (?lon ! 1) = 0" by blast
  ultimately show ?thesis using less zero by simp
qed

text \<open>
  C3 as stated, over all entries, fails: entry 1 has score 3 and rank 1, entry 2 has no
  vote, score 0 and rank 0, so the higher score has the greater rank.
\<close>

theorem rank_monotone_counterexample:
  "score ((count_votes lonely_votes lonely_files) ! 1) < score ((count_votes lonely_votes lonely_files) ! 0)
   \<and> rank ((count_votes lonely_votes lonely_files) ! 0) = 1 \<and> rank ((count_votes lonely_votes lonely_files) ! 1) = 0
   \<and> \<not> rank ((count_votes lonely_votes lonely_files) ! 0) \<le> rank ((count_votes lonely_votes lonely_files) ! 1)"
  by (simp add: lonely_counted)

text \<open>
  C4. The parser is not total. The variables \<^verbatim>\<open>num\<close>, \<^verbatim>\<open>fname\<close>, \<^verbatim>\<open>title\<close> and
  \<^verbatim>\<open>creator\<close> get their first value at a header line. On a page whose first line is a
  creator line, \<^verbatim>\<open>files.append([num, fname, title, creator])\<close> reads \<^verbatim>\<open>num\<close> before
  any assignment; on a page whose first line is a vote line, the test
  \<^verbatim>\<open>fname != 'Sample-image.svg'\<close> reads \<^verbatim>\<open>fname\<close>. Both raise
  \<^verbatim>\<open>UnboundLocalError\<close>. (A page whose first line is a header is always parsed:
  \<open>parse_after_header_total\<close>.)
\<close>

theorem parser_raises_before_first_header:
  "parse_voting_page creator_line = Inl UnboundLocalError
   \<and> parse_voting_page vote_line = Inl UnboundLocalError"
  by code_simp

end
